theory Spec2Isabelle
  imports Complex_Main "HOL-Library.Sublist"
begin

section \<open>JavaScript strings and arrays\<close>

text \<open>
  A JavaScript string is modelled as a \<^typ>\<open>string\<close> whose characters stand for the
  code points U+0000 to U+00FF. The helpers below are the built-ins the sources call:
  \<^verbatim>\<open>trim\<close>, \<^verbatim>\<open>toLowerCase\<close>, \<^verbatim>\<open>split\<close> with a one-character separator,
  \<^verbatim>\<open>filter(Boolean)\<close>, \<^verbatim>\<open>includes\<close> and \<^verbatim>\<open>[...new Set(xs)]\<close>.
\<close>

definition is_ws :: "char \<Rightarrow> bool" where
  \<comment> \<open>white space and line terminators below U+0100: TAB, LF, VT, FF, CR, SP, NBSP\<close>
  "is_ws c = (of_char c \<in> {9, 10, 11, 12, 13, 32, 160 :: nat})"

definition trim :: "string \<Rightarrow> string" where
  "trim s = rev (dropWhile is_ws (rev (dropWhile is_ws s)))"

definition lower_char :: "char \<Rightarrow> char" where
  \<comment> \<open>A-Z and the Latin-1 capitals U+00C0..U+00DE (without the multiplication sign)\<close>
  "lower_char c =
     (let n = (of_char c :: nat)
      in if (65 \<le> n \<and> n \<le> 90) \<or> (192 \<le> n \<and> n \<le> 222 \<and> n \<noteq> 215)
         then char_of (n + 32) else c)"

definition toLowerCase :: "string \<Rightarrow> string" where
  "toLowerCase s = map lower_char s"

fun split :: "char \<Rightarrow> string \<Rightarrow> string list" where
  "split sep [] = [[]]"
| "split sep (c # cs) =
     (if c = sep then [] # split sep cs
      else (case split sep cs of
              [] \<Rightarrow> [[c]]
            | w # ws \<Rightarrow> (c # w) # ws))"

definition filter_Boolean :: "string list \<Rightarrow> string list" where
  \<comment> \<open>the empty string is the only falsy string\<close>
  "filter_Boolean xs = filter (\<lambda>s. s \<noteq> []) xs"

fun str_includes :: "string \<Rightarrow> string \<Rightarrow> bool" where
  "str_includes [] p = (p = [])"
| "str_includes (c # cs) p = (prefix p (c # cs) \<or> str_includes cs p)"

definition Set_add :: "'a list \<Rightarrow> 'a \<Rightarrow> 'a list" where
  \<comment> \<open>a Set keeps insertion order; adding a member again changes nothing\<close>
  "Set_add acc x = (if x \<in> set acc then acc else acc @ [x])"

definition spread_Set :: "'a list \<Rightarrow> 'a list" where
  \<comment> \<open>\<^verbatim>\<open>[...new Set(xs)]\<close>\<close>
  "spread_Set xs = foldl Set_add [] xs"

abbreviation newline :: char where
  "newline \<equiv> CHR 0x0A"

section \<open>Domain Normalizer (index.js, normalizeDomain)\<close>

definition strip_scheme :: "string \<Rightarrow> string" where
  \<comment> \<open>the group \<^verbatim>\<open>(https?:\/\/)?\<close> anchored at the start\<close>
  "strip_scheme s =
     (if prefix ''http://'' s then drop 7 s
      else if prefix ''https://'' s then drop 8 s
      else s)"

definition strip_www :: "string \<Rightarrow> string" where
  \<comment> \<open>the group \<^verbatim>\<open>(www\.)?\<close> that follows it\<close>
  "strip_www s = (if prefix ''www.'' s then drop 4 s else s)"

definition normalizeDomain :: "string \<Rightarrow> string" where
  "normalizeDomain domainStr =
     (let cleanedDomain = toLowerCase (trim domainStr);
          cleanedDomain = strip_www (strip_scheme cleanedDomain);
          cleanedDomain = hd (split (CHR ''/'') cleanedDomain)
      in cleanedDomain)"

text \<open>
  Checker-mode input parsing of the click handler (index.js, lines 173-180): the lines
  of the text area are trimmed, blank lines are dropped, the rest is normalised and
  collected into a Set. An empty list stops the run with an alert.
\<close>

datatype 'a started = Alerted string | Stopped | Proceed 'a

definition checker_domains :: "string \<Rightarrow> string list" where
  "checker_domains input =
     (let rawDomains = filter_Boolean (map trim (split newline input))
      in spread_Set (map normalizeDomain rawDomains))"

definition checker_start :: "string \<Rightarrow> string list started" where
  "checker_start input =
     (let domains = checker_domains input
      in if length domains = 0 then Alerted ''Please paste a list of domains.''
         else Proceed domains)"

section \<open>Availability Prober (api/check-domain.js, checkDomainAvailability)\<close>

text \<open>
  A rejected promise or a thrown exception is the left injection of a sum; only the
  name and the message of an exception are ever read.
\<close>

datatype js_exn = Exn (exn_name: string) (exn_message: string)

datatype json = JNull | JBool bool | JNum rat | JStr string | JArr "json list"
  | JObj "(string \<times> json) list"

definition get_prop :: "json \<Rightarrow> string \<Rightarrow> json option" where
  \<comment> \<open>reading the property \<open>k\<close> (a key of a response, never \<^verbatim>\<open>length\<close>) of a value that is
      not null; \<open>None\<close> is undefined. An object lists each of its keys once.\<close>
  "get_prop v k = (case v of JObj fields \<Rightarrow> map_of fields k | _ \<Rightarrow> None)"

datatype availability = Available | Unavailable | Timeout | Error

record 'd availability_result =
  domain :: 'd
  availability :: availability

text \<open>
  What the resolver and the 3000 ms abort timer do for one request: the timer fires
  before \<^verbatim>\<open>fetch\<close> settles, or \<^verbatim>\<open>fetch\<close> rejects, or it resolves and
  \<^verbatim>\<open>response.json()\<close> then rejects or yields a value.
\<close>

datatype body_outcome = Json_rejects | Json_value json

datatype fetch_outcome = Timer_fires | Network_failure | Responds body_outcome

type_synonym 'd resolver = "'d \<Rightarrow> fetch_outcome"

definition checkDomainAvailability_try ::
  "'d resolver \<Rightarrow> 'd \<Rightarrow> js_exn + 'd availability_result" where
  \<comment> \<open>the body of the \<^verbatim>\<open>try\<close> block\<close>
  "checkDomainAvailability_try resolver d =
     (case resolver d of
        Timer_fires \<Rightarrow> Inl (Exn ''AbortError'' ''The operation was aborted.'')
      | Network_failure \<Rightarrow> Inl (Exn ''TypeError'' ''fetch failed'')
      | Responds Json_rejects \<Rightarrow> Inl (Exn ''SyntaxError'' ''Unexpected token'')
      | Responds (Json_value data) \<Rightarrow>
          (if data = JNull
           then Inl (Exn ''TypeError'' ''Cannot read properties of null'')
           else if get_prop data ''Status'' = Some (JNum 3)
           then Inr \<lparr>domain = d, availability = Available\<rparr>
           else Inr \<lparr>domain = d, availability = Unavailable\<rparr>))"

definition checkDomainAvailability ::
  "'d resolver \<Rightarrow> 'd \<Rightarrow> js_exn + 'd availability_result" where
  "checkDomainAvailability resolver d =
     (case checkDomainAvailability_try resolver d of
        Inr result \<Rightarrow> Inr result
      | Inl error \<Rightarrow>
          (let availability = (if exn_name error = ''AbortError'' then Timeout else Error)
           in Inr \<lparr>domain = d, availability = availability\<rparr>))"

section \<open>Promise.all\<close>

text \<open>
  The promises settle one by one in an order the event loop chooses: first the indices
  of \<open>order\<close>, then whatever is still pending. A fulfilled promise stores its value in
  the slot of its own index; the first rejection rejects the whole.
\<close>

fun settle :: "nat list \<Rightarrow> (js_exn + 'a) list \<Rightarrow> 'a option list \<Rightarrow> js_exn + 'a option list" where
  "settle [] ps slots = Inr slots"
| "settle (k # ks) ps slots =
     (if k < length ps
      then (case ps ! k of
              Inl e \<Rightarrow> Inl e
            | Inr v \<Rightarrow> settle ks ps (slots[k := Some v]))
      else settle ks ps slots)"

definition Promise_all :: "nat list \<Rightarrow> (js_exn + 'a) list \<Rightarrow> js_exn + 'a list" where
  "Promise_all order ps =
     (case settle (order @ [0..<length ps]) ps (replicate (length ps) None) of
        Inl e \<Rightarrow> Inl e
      | Inr slots \<Rightarrow> Inr (map the slots))"

section \<open>HTTP handlers\<close>

text \<open>
  A request after \<^verbatim>\<open>req.json()\<close> and destructuring: the body is the exception that
  reading it raised, or the fields the handlers look at. \<open>domains = None\<close> stands for a
  \<^verbatim>\<open>domains\<close> that is absent, falsy or not an array.
\<close>

record 'd body =
  mode :: "string option"
  domains :: "'d list option"
  keywords_text :: string
  tlds_text :: string

record 'd request =
  http_method :: string
  body :: "js_exn + 'd body"

datatype 'd payload =
    Error_body string
  | Results_body "'d availability_result list"
  | Domains_body "string list"
  | Raw_body "string option"
  | Empty_body

record 'd response =
  status :: nat
  payload :: "'d payload"

definition handler_check_domain :: "'d resolver \<Rightarrow> nat list \<Rightarrow> 'd request \<Rightarrow> 'd response" where
  \<comment> \<open>api/check-domain.js, lines 30-55\<close>
  "handler_check_domain resolver order req =
     (if http_method req \<noteq> ''POST''
      then \<lparr>status = 405, payload = Error_body ''Method not allowed''\<rparr>
      else
        (case body req of
           Inl e \<Rightarrow> \<lparr>status = 500, payload = Error_body ''An internal server error occurred.''\<rparr>
         | Inr b \<Rightarrow>
             (case domains b of
                None \<Rightarrow>
                  \<lparr>status = 400, payload = Error_body ''Invalid input: \"domains\" array is required.''\<rparr>
              | Some ds \<Rightarrow>
                  if length ds = 0
                  then \<lparr>status = 400, payload = Error_body ''Invalid input: \"domains\" array is required.''\<rparr>
                  else
                    (let checkPromises = map (checkDomainAvailability resolver) ds
                     in case Promise_all order checkPromises of
                          Inl e \<Rightarrow>
                            \<lparr>status = 500, payload = Error_body ''An internal server error occurred.''\<rparr>
                        | Inr results \<Rightarrow> \<lparr>status = 200, payload = Results_body results\<rparr>))))"

definition message_or :: "js_exn \<Rightarrow> string \<Rightarrow> string" where
  \<comment> \<open>\<^verbatim>\<open>e.message || fallback\<close>\<close>
  "message_or e fallback = (if exn_message e = [] then fallback else exn_message e)"

text \<open>
  The orchestrator (api/orchestrator.js, lines 29-92). The generative service is outside
  the repository: its answer to the one call a request makes is a parameter, the rejection
  or the \<^verbatim>\<open>text\<close> of the response (\<open>None\<close> when undefined).
\<close>

definition orchestrator_handler ::
  "string option \<Rightarrow> (js_exn + string option) \<Rightarrow> 'd resolver \<Rightarrow> nat list \<Rightarrow> 'd request \<Rightarrow> 'd response" where
  "orchestrator_handler apiKey ai resolver order req =
     (if http_method req \<noteq> ''POST''
      then \<lparr>status = 405, payload = Error_body ''Method not allowed''\<rparr>
      else if apiKey = None \<or> apiKey = Some []
      then \<lparr>status = 500, payload = Error_body ''Server configuration error: API_KEY is missing.''\<rparr>
      else
        (let internal = (\<lambda>e. \<lparr>status = 500,
               payload = Error_body (message_or e ''An internal server error occurred.'')\<rparr>)
         in case body req of
              Inl e \<Rightarrow> internal e
            | Inr b \<Rightarrow>
                if mode b = Some ''generate'' then
                  (if keywords_text b = [] \<or> tlds_text b = []
                   then \<lparr>status = 400, payload = Error_body ''Keywords and TLDs are required.''\<rparr>
                   else
                     (case ai of
                        Inl e \<Rightarrow> internal e
                      | Inr None \<Rightarrow>
                          internal (Exn ''TypeError'' ''Cannot read properties of undefined'')
                      | Inr (Some text) \<Rightarrow>
                          \<lparr>status = 200,
                           payload = Domains_body (filter_Boolean (split newline (trim text)))\<rparr>))
                else if mode b = Some ''check'' then
                  (case domains b of
                     None \<Rightarrow> \<lparr>status = 400, payload = Error_body ''Domains array is required.''\<rparr>
                   | Some ds \<Rightarrow>
                       (let checkPromises = map (checkDomainAvailability resolver) ds
                        in case Promise_all order checkPromises of
                             Inl e \<Rightarrow> internal e
                           | Inr results \<Rightarrow> \<lparr>status = 200, payload = Results_body results\<rparr>))
                else if mode b = Some ''categorize'' then
                  (case domains b of
                     None \<Rightarrow> \<lparr>status = 400, payload = Error_body ''Domains array is required.''\<rparr>
                   | Some ds \<Rightarrow>
                       (case ai of
                          Inl e \<Rightarrow> internal e
                        | Inr text \<Rightarrow> \<lparr>status = 200, payload = Raw_body text\<rparr>))
                else \<lparr>status = 400, payload = Error_body ''Invalid mode specified.''\<rparr>))"

text \<open>
  The XML registrar backend (api/check-domains.js, second handler, lines 77-139). The
  body arrives parsed; \<open>Inl\<close> stands for a body that is undefined or null, whose
  destructuring raises outside any \<^verbatim>\<open>try\<close>. The registrar's answer is a parameter: the
  rejection of \<^verbatim>\<open>fetch\<close> or \<^verbatim>\<open>text()\<close>, or the response text.
\<close>

definition DomainCheckResult_marker :: "string \<Rightarrow> string" where
  "DomainCheckResult_marker d =
     ''<DomainCheckResult Domain=\"'' @ d @ ''\" Available=\"true\"''"

definition namecheap_results :: "string \<Rightarrow> string list \<Rightarrow> string availability_result list" where
  \<comment> \<open>lines 124-130\<close>
  "namecheap_results xmlText ds =
     map (\<lambda>d. let isAvailable = str_includes xmlText (DomainCheckResult_marker d)
              in \<lparr>domain = d,
                  availability = (if isAvailable then Available else Unavailable)\<rparr>) ds"

definition namecheap_handler ::
  "string option \<Rightarrow> string option \<Rightarrow> (js_exn + string) \<Rightarrow> string request \<Rightarrow> js_exn + string response" where
  "namecheap_handler API_USER API_KEY registrar req =
     (if http_method req = ''OPTIONS'' then Inr \<lparr>status = 200, payload = Empty_body\<rparr>
      else if http_method req \<noteq> ''POST''
      then Inr \<lparr>status = 405, payload = Error_body ''Method Not Allowed''\<rparr>
      else
        (case body req of
           Inl e \<Rightarrow> Inl e
         | Inr b \<Rightarrow>
             (case domains b of
                None \<Rightarrow> Inr \<lparr>status = 400, payload = Error_body ''Domains must be a non-empty array.''\<rparr>
              | Some ds \<Rightarrow>
                  if length ds = 0
                  then Inr \<lparr>status = 400, payload = Error_body ''Domains must be a non-empty array.''\<rparr>
                  else if API_USER = None \<or> API_USER = Some [] \<or> API_KEY = None \<or> API_KEY = Some []
                  then Inr \<lparr>status = 500, payload = Error_body ''Server configuration error.''\<rparr>
                  else
                    (case registrar of
                       Inl error \<Rightarrow>
                         Inr \<lparr>status = 500, payload = Error_body ''Failed to check domains.''\<rparr>
                     | Inr xmlText \<Rightarrow>
                         Inr \<lparr>status = 200, payload = Results_body (namecheap_results xmlText ds)\<rparr>))))"

text \<open>
  The streaming handler (unnamed/part_000, lines 35-136, and the second handler of
  api/orchestrator.js) is not modelled. The \<^verbatim>\<open>start\<close> callback of its
  \<^verbatim>\<open>ReadableStream\<close> calls \<^verbatim>\<open>controller.getWriter()\<close> (part_000, line 46) before its
  \<^verbatim>\<open>try\<close> block; a stream controller has no such method, so the call raises a TypeError
  and neither the generator step (lines 52-64) nor the loop over the batches (lines
  73-84) is reached.
\<close>

section \<open>The browser pipeline (index.js)\<close>

subsection \<open>checkDomainsWithBackend\<close>

text \<open>
  What one POST to the backend does: \<^verbatim>\<open>fetch\<close> rejects because the signal was aborted
  in flight or because the network failed, the response is not ok, its body is not JSON,
  or it carries a list of results.
\<close>

datatype backend_reply =
    Fetch_aborted
  | Fetch_failed
  | Not_ok
  | Json_failed
  | Replied "string availability_result list"

definition checkDomainsWithBackend :: "backend_reply \<Rightarrow> js_exn + string availability_result list" where
  "checkDomainsWithBackend reply =
     (case reply of
        Fetch_aborted \<Rightarrow> Inl (Exn ''AbortError'' ''The user aborted a request.'')
      | Fetch_failed \<Rightarrow> Inl (Exn ''TypeError'' ''Failed to fetch'')
      | Not_ok \<Rightarrow> Inl (Exn ''Error'' ''The server returned an error. Please try again later.'')
      | Json_failed \<Rightarrow> Inl (Exn ''SyntaxError'' ''Unexpected token'')
      | Replied results \<Rightarrow> Inr results)"

subsection \<open>generateDomainIdeas\<close>

definition generateDomainIdeas :: "(js_exn + string option) \<Rightarrow> string list" where
  \<comment> \<open>\<open>Inr None\<close>: the response has no text, and \<^verbatim>\<open>trim\<close> of undefined raises inside the \<^verbatim>\<open>try\<close>\<close>
  "generateDomainIdeas ai =
     (case ai of
        Inl error \<Rightarrow> []
      | Inr None \<Rightarrow> []
      | Inr (Some text) \<Rightarrow> filter_Boolean (split newline (trim text)))"

subsection \<open>safeJsonParse and categorizeDomains\<close>

fun strip_closing_fence :: "string \<Rightarrow> string" where
  \<comment> \<open>the leftmost match of the alternative \<^verbatim>\<open>```\s*$\<close>\<close>
  "strip_closing_fence [] = []"
| "strip_closing_fence (c # cs) =
     (if prefix ''```'' (c # cs) \<and> list_all is_ws (drop 3 (c # cs)) then []
      else c # strip_closing_fence cs)"

definition strip_fences :: "string \<Rightarrow> string" where
  \<comment> \<open>\<^verbatim>\<open>replace(/^```json\s*|```\s*$/g, '')\<close>\<close>
  "strip_fences s =
     (if prefix ''```json'' s then strip_closing_fence (dropWhile is_ws (drop 7 s))
      else strip_closing_fence s)"

text \<open>\<^verbatim>\<open>JSON.parse\<close> is a parameter: \<open>None\<close> where it raises a SyntaxError.\<close>

definition safeJsonParse :: "(string \<Rightarrow> json option) \<Rightarrow> string \<Rightarrow> js_exn + json" where
  "safeJsonParse JSON_parse jsonString =
     (let cleanedString = strip_fences (trim jsonString)
      in case JSON_parse cleanedString of
           Some v \<Rightarrow> Inr v
         | None \<Rightarrow> Inl (Exn ''Error'' ''Invalid JSON response from AI model.''))"

definition categorizeDomains_try ::
  "(string \<Rightarrow> json option) \<Rightarrow> (js_exn + string option) \<Rightarrow> js_exn + json" where
  "categorizeDomains_try JSON_parse ai =
     (case ai of
        Inl e \<Rightarrow> Inl e
      | Inr None \<Rightarrow> Inl (Exn ''TypeError'' ''Cannot read properties of undefined'')
      | Inr (Some text) \<Rightarrow> safeJsonParse JSON_parse text)"

definition categorizeDomains ::
  "(string \<Rightarrow> json option) \<Rightarrow> (js_exn + string option) \<Rightarrow> string list \<Rightarrow> js_exn + json" where
  "categorizeDomains JSON_parse ai ds =
     (if length ds = 0 then Inr (JArr [])
      else
        (case categorizeDomains_try JSON_parse ai of
           Inr v \<Rightarrow> Inr v
         | Inl error \<Rightarrow>
             Inr (JArr [JObj [(''category'', JStr ''Available Domains''),
                              (''domains'', JArr (map JStr ds))]])))"

subsection \<open>The click handler of the analyze button\<close>

text \<open>
  The state of one run: the two loop variables, the calls of \<^verbatim>\<open>updateSummary\<close> and
  \<^verbatim>\<open>updateProgress\<close> in the order they were made, and the batches posted to the
  backend, each with the loop index it starts at.
\<close>

record run =
  checkedCount :: nat
  allAvailableDomains :: "string list"
  summaries :: "(nat \<times> nat \<times> nat) list"
  progress :: "(nat \<times> nat) list"
  requests :: "(nat \<times> string list) list"

datatype loop_exit = Finished | Broke | Threw js_exn

definition slice :: "'a list \<Rightarrow> nat \<Rightarrow> nat \<Rightarrow> 'a list" where
  "slice xs a b = take (b - a) (drop a xs)"

definition after_batch ::
  "run \<Rightarrow> nat \<Rightarrow> string list \<Rightarrow> string availability_result list \<Rightarrow> run" where
  \<comment> \<open>lines 213-220\<close>
  "after_batch st totalDomains batch results =
     (let availableInBatch = map domain (filter (\<lambda>r. availability r = Available) results);
          available = allAvailableDomains st @ availableInBatch;
          checked = min (checkedCount st + length batch) totalDomains
      in st\<lparr>allAvailableDomains := available,
            checkedCount := checked,
            progress := progress st @ [(checked, totalDomains)],
            summaries := summaries st @ [(checked, totalDomains, length available)]\<rparr>)"

text \<open>
  The loop of lines 204-221, with the batch size as a parameter. \<open>aborted i\<close> is the
  state of the abort signal when the loop head is reached with index \<open>i\<close>; \<open>backend i
  batch\<close> is what the request posted there does. With batch size 0 the index never moves
  and the loop does not return: the result is \<open>None\<close>.
\<close>

partial_function (option) batch_loop ::
  "nat \<Rightarrow> (nat \<Rightarrow> bool) \<Rightarrow> (nat \<Rightarrow> string list \<Rightarrow> backend_reply) \<Rightarrow> string list \<Rightarrow> nat \<Rightarrow> run
     \<Rightarrow> (loop_exit \<times> run) option" where
  "batch_loop BATCH_SIZE aborted backend ds i st =
     (if i < length ds then
        (if aborted i then Some (Broke, st)
         else
           (let batch = slice ds i (i + BATCH_SIZE);
                st1 = st\<lparr>requests := requests st @ [(i, batch)]\<rparr>
            in case checkDomainsWithBackend (backend i batch) of
                 Inl e \<Rightarrow> Some (Threw e, st1)
               | Inr results \<Rightarrow>
                   batch_loop BATCH_SIZE aborted backend ds (i + BATCH_SIZE)
                     (after_batch st1 (length ds) batch results)))
      else Some (Finished, st))"

text \<open>
  \<^verbatim>\<open>displayResults\<close> (lines 319-348) on the value \<^verbatim>\<open>categorizeDomains\<close> returned. It reads
  \<^verbatim>\<open>length\<close>, maps over the categories reading \<^verbatim>\<open>cat.category\<close>, \<^verbatim>\<open>cat.domains.length\<close>
  and \<^verbatim>\<open>cat.domains.map\<close>, and then reads \<^verbatim>\<open>categorizedDomains[index].domains\<close> for
  every element of class \<^verbatim>\<open>copy-cat-button\<close> in the document. The document is not part
  of the sources: \<open>copy_buttons\<close>, the number of those elements after the categories are
  rendered, is a parameter, and the calls on the elements of the page are taken not to
  raise. The messages of the TypeErrors are the engine's.
\<close>

definition render_category :: "json \<Rightarrow> js_exn + unit" where
  \<comment> \<open>one call of the arrow function of lines 330-342\<close>
  "render_category cat =
     (if cat = JNull then Inl (Exn ''TypeError'' ''Cannot read properties of null'')
      else
        (case get_prop cat ''domains'' of
           None \<Rightarrow> Inl (Exn ''TypeError'' ''Cannot read properties of undefined'')
         | Some JNull \<Rightarrow> Inl (Exn ''TypeError'' ''Cannot read properties of null'')
         | Some (JArr ds) \<Rightarrow> Inr ()
         | Some other \<Rightarrow> Inl (Exn ''TypeError'' ''cat.domains.map is not a function'')))"

fun render_categories :: "json list \<Rightarrow> js_exn + unit" where
  "render_categories [] = Inr ()"
| "render_categories (cat # cats) =
     (case render_category cat of
        Inl e \<Rightarrow> Inl e
      | Inr u \<Rightarrow> render_categories cats)"

definition displayResults :: "nat \<Rightarrow> json \<Rightarrow> js_exn + unit" where
  "displayResults copy_buttons categorizedDomains =
     (case categorizedDomains of
        JNull \<Rightarrow> Inl (Exn ''TypeError'' ''Cannot read properties of null'')
      | JArr cats \<Rightarrow>
          if length cats = 0 then Inr ()
          else
            (case render_categories cats of
               Inl e \<Rightarrow> Inl e
             | Inr u \<Rightarrow>
                 if copy_buttons \<le> length cats then Inr ()
                 else Inl (Exn ''TypeError'' ''Cannot read properties of undefined''))
      | JStr s \<Rightarrow>
          if length s = 0 then Inr ()
          else Inl (Exn ''TypeError'' ''categorizedDomains.map is not a function'')
      | JObj props \<Rightarrow>
          if map_of props ''length'' = Some (JNum 0) then Inr ()
          else Inl (Exn ''TypeError'' ''categorizedDomains.map is not a function'')
      | other \<Rightarrow> Inl (Exn ''TypeError'' ''categorizedDomains.map is not a function''))"

datatype terminal = Cancelled | Categorized json | No_available | Failed string

definition finish ::
  "nat \<Rightarrow> (string \<Rightarrow> json option) \<Rightarrow> (js_exn + string option) \<Rightarrow> loop_exit \<Rightarrow> run \<Rightarrow> terminal" where
  \<comment> \<open>lines 223-244: \<open>Categorized\<close> stands for the results displayed, \<open>Failed\<close> for the
      message of the \<^verbatim>\<open>catch\<close> branch\<close>
  "finish copy_buttons JSON_parse ai ex st =
     (let caught = (\<lambda>error. if exn_name error = ''AbortError'' then Cancelled
                             else Failed (exn_message error))
      in case ex of
           Broke \<Rightarrow> Cancelled
         | Finished \<Rightarrow>
             (if length (allAvailableDomains st) > 0
              then (case categorizeDomains JSON_parse ai (allAvailableDomains st) of
                      Inl error \<Rightarrow> caught error
                    | Inr categorized \<Rightarrow>
                        (case displayResults copy_buttons categorized of
                           Inl error \<Rightarrow> caught error
                         | Inr u \<Rightarrow> Categorized categorized))
              else No_available)
         | Threw error \<Rightarrow> caught error)"

definition run_checks ::
  "nat \<Rightarrow> nat \<Rightarrow> (nat \<Rightarrow> bool) \<Rightarrow> (nat \<Rightarrow> string list \<Rightarrow> backend_reply) \<Rightarrow> (string \<Rightarrow> json option)
     \<Rightarrow> (js_exn + string option) \<Rightarrow> string list \<Rightarrow> (terminal \<times> run) option" where
  \<comment> \<open>lines 197-244\<close>
  "run_checks BATCH_SIZE copy_buttons aborted backend JSON_parse ai ds =
     (let st0 = \<lparr>checkedCount = 0, allAvailableDomains = [],
                 summaries = [(0, length ds, 0)], progress = [], requests = []\<rparr>
      in case batch_loop BATCH_SIZE aborted backend ds 0 st0 of
           None \<Rightarrow> None
         | Some (ex, st) \<Rightarrow> Some (finish copy_buttons JSON_parse ai ex st, st))"

datatype ui_mode = Checker | Generator

definition start_domains ::
  "ui_mode \<Rightarrow> string \<Rightarrow> string \<Rightarrow> string \<Rightarrow> (js_exn + string option) \<Rightarrow> string list started" where
  \<comment> \<open>lines 172-195\<close>
  "start_domains currentMode input kw tlds ai =
     (case currentMode of
        Checker \<Rightarrow> checker_start input
      | Generator \<Rightarrow>
          if kw = [] \<or> tlds = []
          then Alerted ''Please provide keywords and TLDs to generate domains.''
          else
            (let ds = generateDomainIdeas ai
             in if length ds = 0 then Stopped else Proceed ds))"

definition analyze_click ::
  "nat \<Rightarrow> ui_mode \<Rightarrow> string \<Rightarrow> string \<Rightarrow> string \<Rightarrow> (js_exn + string option) \<Rightarrow> (nat \<Rightarrow> bool)
     \<Rightarrow> (nat \<Rightarrow> string list \<Rightarrow> backend_reply) \<Rightarrow> (string \<Rightarrow> json option) \<Rightarrow> (js_exn + string option)
     \<Rightarrow> (terminal \<times> run) started option" where
  \<comment> \<open>the whole handler, with \<^verbatim>\<open>BATCH_SIZE = 50\<close>\<close>
  "analyze_click copy_buttons currentMode input kw tlds gen_ai aborted backend JSON_parse cat_ai =
     (case start_domains currentMode input kw tlds gen_ai of
        Alerted msg \<Rightarrow> Some (Alerted msg)
      | Stopped \<Rightarrow> Some Stopped
      | Proceed ds \<Rightarrow>
          map_option Proceed (run_checks 50 copy_buttons aborted backend JSON_parse cat_ai ds))"

section \<open>Auxiliary lemmas\<close>

lemma split_not_Nil: "split sep s \<noteq> []"
  by (induction s) (auto split: list.splits)

lemma hd_split: "hd (split sep s) = takeWhile (\<lambda>c. c \<noteq> sep) s"
  by (induction s) (auto split: list.splits simp: split_not_Nil)

lemma lower_char_idem: "lower_char (lower_char c) = lower_char c"
proof -
  have "of_char c < (256::nat)" by simp
  then show ?thesis
    unfolding lower_char_def Let_def
    by (auto simp: of_char_of)
qed

lemma dropWhile_same_length: "length (dropWhile P s) = length s \<Longrightarrow> dropWhile P s = s"
proof (cases s)
  case Nil
  then show ?thesis by simp
next
  case (Cons a t)
  assume len: "length (dropWhile P s) = length s"
  have "length (dropWhile P t) \<le> length t" by (rule length_dropWhile_le)
  with len Cons show ?thesis by (auto split: if_splits)
qed

lemma length_trim_le: "length (trim s) \<le> length s"
proof -
  have "length (trim s) \<le> length (dropWhile is_ws s)"
    unfolding trim_def by (metis length_dropWhile_le length_rev)
  also have "\<dots> \<le> length s" by (rule length_dropWhile_le)
  finally show ?thesis .
qed

lemma trim_shorter: "trim s \<noteq> s \<Longrightarrow> length (trim s) < length s"
proof (rule ccontr)
  assume neq: "trim s \<noteq> s" and "\<not> length (trim s) < length s"
  with length_trim_le [of s] have eq: "length (trim s) = length s" by simp
  have a: "length (trim s) \<le> length (dropWhile is_ws s)"
    unfolding trim_def by (metis length_dropWhile_le length_rev)
  have b: "length (dropWhile is_ws s) \<le> length s" by (rule length_dropWhile_le)
  from eq a b have "length (dropWhile is_ws s) = length s" by simp
  then have d1: "dropWhile is_ws s = s" by (rule dropWhile_same_length)
  from eq have "length (dropWhile is_ws (rev s)) = length (rev s)"
    unfolding trim_def d1 by simp
  then have "dropWhile is_ws (rev s) = rev s" by (rule dropWhile_same_length)
  then have "trim s = s" unfolding trim_def d1 by simp
  with neq show False by simp
qed

lemma length_strip_scheme_le: "length (strip_scheme s) \<le> length s"
  by (simp add: strip_scheme_def)

lemma length_strip_www_le: "length (strip_www s) \<le> length s"
  by (simp add: strip_www_def)

lemma length_normalizeDomain_le: "length (normalizeDomain s) \<le> length (trim s)"
proof -
  have "length (normalizeDomain s) \<le> length (strip_www (strip_scheme (toLowerCase (trim s))))"
    by (simp add: normalizeDomain_def hd_split length_takeWhile_le)
  also have "\<dots> \<le> length (strip_scheme (toLowerCase (trim s)))" by (rule length_strip_www_le)
  also have "\<dots> \<le> length (toLowerCase (trim s))" by (rule length_strip_scheme_le)
  also have "\<dots> = length (trim s)" by (simp add: toLowerCase_def)
  finally show ?thesis .
qed

lemma set_strip_scheme: "set (strip_scheme s) \<subseteq> set s"
  by (auto simp: strip_scheme_def dest: in_set_dropD)

lemma set_strip_www: "set (strip_www s) \<subseteq> set s"
  by (auto simp: strip_www_def dest: in_set_dropD)

lemma normalizeDomain_no_slash: "CHR ''/'' \<notin> set (normalizeDomain s)"
  by (auto simp: normalizeDomain_def hd_split dest: set_takeWhileD)

lemma normalizeDomain_lower: "toLowerCase (normalizeDomain s) = normalizeDomain s"
proof -
  have "set (normalizeDomain s) \<subseteq> set (toLowerCase (trim s))"
    using set_strip_www set_strip_scheme
    by (fastforce simp: normalizeDomain_def hd_split dest: set_takeWhileD)
  then have "\<forall>c \<in> set (normalizeDomain s). lower_char c = c"
    by (auto simp: toLowerCase_def lower_char_idem)
  then show ?thesis
    unfolding toLowerCase_def by (simp add: map_idI)
qed

lemma strip_scheme_no_slash: "CHR ''/'' \<notin> set s \<Longrightarrow> strip_scheme s = s"
  by (auto simp: strip_scheme_def prefix_def)

lemma normalizeDomain_fixed:
  assumes "CHR ''/'' \<notin> set y" "toLowerCase y = y" "trim y = y" "\<not> prefix ''www.'' y"
  shows "normalizeDomain y = y"
  using assms
  by (auto simp: normalizeDomain_def hd_split strip_scheme_no_slash strip_www_def takeWhile_eq_all_conv)

lemma normalizeDomain_www_shorter:
  assumes "toLowerCase y = y" "trim y = y" "prefix ''www.'' y"
  shows "length (normalizeDomain y) < length y"
proof -
  from assms(3) obtain r where y: "y = ''www.'' @ r" by (auto simp: prefix_def)
  have s: "strip_scheme y = y" unfolding y by (simp add: strip_scheme_def)
  have "length (normalizeDomain y) \<le> length (strip_www y)"
    using assms(1,2) s by (simp add: normalizeDomain_def hd_split length_takeWhile_le)
  also have "\<dots> < length y" unfolding y by (simp add: strip_www_def)
  finally show ?thesis .
qed



lemma settle_fulfilled:
  "length slots = length vs \<Longrightarrow>
   \<exists>slots'. settle ks (map Inr vs) slots = Inr slots' \<and> length slots' = length vs \<and>
     (\<forall>i < length vs. slots' ! i = (if i \<in> set ks then Some (vs ! i) else slots ! i))"
proof (induction ks arbitrary: slots)
  case Nil
  then show ?case by simp
next
  case (Cons k ks)
  show ?case
  proof (cases "k < length vs")
    case False
    with Cons.IH [OF Cons.prems] show ?thesis by auto
  next
    case True
    have len: "length (slots[k := Some (vs ! k)]) = length vs" using Cons.prems by simp
    from Cons.IH [OF len] obtain slots' where
      s: "settle ks (map Inr vs) (slots[k := Some (vs ! k)]) = Inr slots'"
      and l: "length slots' = length vs"
      and n: "\<forall>i < length vs. slots' ! i =
                (if i \<in> set ks then Some (vs ! i) else slots[k := Some (vs ! k)] ! i)"
      by blast
    have "settle (k # ks) (map Inr vs) slots = Inr slots'"
      using True s by simp
    moreover have "\<forall>i < length vs. slots' ! i =
        (if i \<in> set (k # ks) then Some (vs ! i) else slots ! i)"
      using n Cons.prems by (auto simp: nth_list_update)
    ultimately show ?thesis using l by blast
  qed
qed

lemma Promise_all_fulfilled: "Promise_all order (map Inr vs) = Inr vs"
proof -
  let ?n = "length vs"
  have "length (replicate ?n (None :: 'a option)) = length vs" by simp
  from settle_fulfilled [OF this, of "order @ [0..<?n]"]
  obtain slots' where s: "settle (order @ [0..<?n]) (map Inr vs) (replicate ?n None) = Inr slots'"
    and l: "length slots' = ?n"
    and n: "\<forall>i < ?n. slots' ! i =
       (if i \<in> set (order @ [0..<?n]) then Some (vs ! i) else replicate ?n None ! i)"
    by blast
  have "map the slots' = vs"
  proof (rule nth_equalityI)
    show "length (map the slots') = length vs" using l by simp
  next
    fix i assume "i < length (map the slots')"
    then have i: "i < ?n" using l by simp
    with n have "slots' ! i = Some (vs ! i)" by simp
    with i l show "map the slots' ! i = vs ! i" by simp
  qed
  with s show ?thesis by (simp add: Promise_all_def)
qed

lemma checkDomainAvailability_Inr:
  "\<exists>a. checkDomainAvailability resolver d = Inr \<lparr>domain = d, availability = a\<rparr>"
  by (auto simp: checkDomainAvailability_def checkDomainAvailability_try_def Let_def
      split: fetch_outcome.splits body_outcome.splits)

lemma probes_fulfilled:
  assumes "\<And>d. \<exists>a. probe d = Inr \<lparr>domain = d, availability = a\<rparr>"
  shows "\<exists>rs. map probe ds = map Inr rs \<and> map domain rs = ds"
proof (induction ds)
  case Nil
  then show ?case by simp
next
  case (Cons d ds)
  then obtain rs where rs: "map probe ds = map Inr rs" "map domain rs = ds" by blast
  from assms [of d] obtain a where "probe d = Inr \<lparr>domain = d, availability = a\<rparr>" by blast
  with rs have "map probe (d # ds) = map Inr (\<lparr>domain = d, availability = a\<rparr> # rs)
      \<and> map domain (\<lparr>domain = d, availability = a\<rparr> # rs) = d # ds"
    by simp
  then show ?case by (rule exI)
qed

lemma Promise_all_probes:
  assumes "\<And>d. \<exists>a. probe d = Inr \<lparr>domain = d, availability = a\<rparr>"
  shows "\<exists>rs. Promise_all order (map probe ds) = Inr rs \<and> map domain rs = ds"
proof -
  from probes_fulfilled [of probe ds, OF assms]
  obtain rs where "map probe ds = map Inr rs" "map domain rs = ds" by blast
  then show ?thesis by (auto simp: Promise_all_fulfilled)
qed




lemma batch_loop_rule:
  assumes B: "0 < B"
    and exit: "\<And>i st. \<not> i < length ds \<Longrightarrow> P i st Finished st"
    and broke: "\<And>i st. i < length ds \<Longrightarrow> ab i \<Longrightarrow> P i st Broke st"
    and threw: "\<And>i st e. i < length ds \<Longrightarrow> \<not> ab i \<Longrightarrow>
        checkDomainsWithBackend (be i (slice ds i (i + B))) = Inl e \<Longrightarrow>
        P i st (Threw e) (st\<lparr>requests := requests st @ [(i, slice ds i (i + B))]\<rparr>)"
    and step: "\<And>i st rs ex st'. i < length ds \<Longrightarrow> \<not> ab i \<Longrightarrow>
        checkDomainsWithBackend (be i (slice ds i (i + B))) = Inr rs \<Longrightarrow>
        P (i + B)
          (after_batch (st\<lparr>requests := requests st @ [(i, slice ds i (i + B))]\<rparr>)
             (length ds) (slice ds i (i + B)) rs) ex st' \<Longrightarrow>
        P i st ex st'"
  shows "\<exists>ex st'. batch_loop B ab be ds i st = Some (ex, st') \<and> P i st ex st'"
proof (induction "length ds - i" arbitrary: i st rule: less_induct)
  case less
  show ?case
  proof (cases "i < length ds")
    case False
    then have "batch_loop B ab be ds i st = Some (Finished, st)"
      by (subst batch_loop.simps) simp
    with exit [OF False] show ?thesis by blast
  next
    case inside: True
    show ?thesis
    proof (cases "ab i")
      case True
      with inside have "batch_loop B ab be ds i st = Some (Broke, st)"
        by (subst batch_loop.simps) simp
      with broke [OF inside True] show ?thesis by blast
    next
      case running: False
      let ?batch = "slice ds i (i + B)"
      let ?st1 = "st\<lparr>requests := requests st @ [(i, ?batch)]\<rparr>"
      show ?thesis
      proof (cases "checkDomainsWithBackend (be i ?batch)")
        case (Inl e)
        with inside running have "batch_loop B ab be ds i st = Some (Threw e, ?st1)"
          by (subst batch_loop.simps) (simp add: Let_def)
        with threw [OF inside running Inl] show ?thesis by blast
      next
        case (Inr rs)
        let ?st2 = "after_batch ?st1 (length ds) ?batch rs"
        from inside running Inr
        have unfold: "batch_loop B ab be ds i st = batch_loop B ab be ds (i + B) ?st2"
          by (subst batch_loop.simps) (simp add: Let_def)
        from inside B have "length ds - (i + B) < length ds - i" by arith
        from less [OF this]
        obtain ex st' where run: "batch_loop B ab be ds (i + B) ?st2 = Some (ex, st')"
          and P: "P (i + B) ?st2 ex st'" by blast
        from step [OF inside running Inr P] run unfold show ?thesis by simp
      qed
    qed
  qed
qed



lemma sorted_le_last: "sorted xs \<Longrightarrow> c \<in> set xs \<Longrightarrow> c \<le> last (xs :: nat list)"
  by (induction xs) auto

lemma slice_append_drop: "slice ds i (i + B) @ drop (i + B) ds = drop i ds"
proof -
  have d: "drop (i + B) ds = drop B (drop i ds)" by (simp add: add.commute)
  show ?thesis by (simp only: slice_def add_diff_cancel_left' d append_take_drop_id)
qed

lemma length_slice: "length (slice ds i (i + B)) = min B (length ds - i)"
  by (simp add: slice_def)

lemma requests_after_batch [simp]: "requests (after_batch st n batch rs) = requests st"
  by (simp add: after_batch_def Let_def)

lemma batch_loop_coverage:
  assumes B: "0 < B"
    and quiet: "\<And>i. \<not> ab i"
    and answered: "\<And>i b. \<exists>rs. be i b = Replied rs"
  shows "\<exists>ex st'. batch_loop B ab be ds i st = Some (ex, st') \<and>
     (ex = Finished \<and> concat (map snd (requests st')) = concat (map snd (requests st)) @ drop i ds)"
proof (rule batch_loop_rule [OF B])
  fix i and st :: run
  assume "\<not> i < length ds"
  then show "Finished = Finished \<and>
      concat (map snd (requests st)) = concat (map snd (requests st)) @ drop i ds"
    by simp
next
  fix i and st :: run
  assume "ab i"
  with quiet show "Broke = Finished \<and>
      concat (map snd (requests st)) = concat (map snd (requests st)) @ drop i ds"
    by simp
next
  fix i e and st :: run
  assume "checkDomainsWithBackend (be i (slice ds i (i + B))) = Inl e"
  with answered [of i "slice ds i (i + B)"]
  show "Threw e = Finished \<and>
      concat (map snd (requests (st\<lparr>requests := requests st @ [(i, slice ds i (i + B))]\<rparr>))) =
      concat (map snd (requests st)) @ drop i ds"
    by (auto simp: checkDomainsWithBackend_def)
next
  fix i rs ex and st st' :: run
  assume "ex = Finished \<and>
      concat (map snd (requests st')) =
      concat (map snd (requests (after_batch (st\<lparr>requests := requests st @ [(i, slice ds i (i + B))]\<rparr>)
          (length ds) (slice ds i (i + B)) rs))) @ drop (i + B) ds"
  then show "ex = Finished \<and>
      concat (map snd (requests st')) = concat (map snd (requests st)) @ drop i ds"
    by (simp add: slice_append_drop)
qed


lemma after_batch_progress:
  assumes ne: "summaries st \<noteq> []" and so: "sorted (map fst (summaries st))"
    and la: "fst (last (summaries st)) = checkedCount st"
    and cc: "checkedCount st = min i (length ds)" and inside: "i < length ds"
  shows "summaries (after_batch st (length ds) (slice ds i (i + B)) rs) \<noteq> []"
    and "sorted (map fst (summaries (after_batch st (length ds) (slice ds i (i + B)) rs)))"
    and "fst (last (summaries (after_batch st (length ds) (slice ds i (i + B)) rs))) =
         checkedCount (after_batch st (length ds) (slice ds i (i + B)) rs)"
    and "checkedCount (after_batch st (length ds) (slice ds i (i + B)) rs) = min (i + B) (length ds)"
proof -
  let ?st2 = "after_batch st (length ds) (slice ds i (i + B)) rs"
  show c2: "checkedCount ?st2 = min (i + B) (length ds)"
    using cc inside by (simp add: after_batch_def Let_def length_slice)
  have su: "map fst (summaries ?st2) = map fst (summaries st) @ [checkedCount ?st2]"
    by (simp add: after_batch_def Let_def)
  show "summaries ?st2 \<noteq> []" by (simp add: after_batch_def Let_def)
  show "fst (last (summaries ?st2)) = checkedCount ?st2" by (simp add: after_batch_def Let_def)
  have "last (map fst (summaries st)) = checkedCount st" using ne la by (simp add: last_map)
  with so have "\<forall>c \<in> set (map fst (summaries st)). c \<le> checkedCount st"
    using sorted_le_last by metis
  moreover have "checkedCount st \<le> checkedCount ?st2" unfolding c2 cc by simp
  ultimately have "\<forall>c \<in> set (map fst (summaries st)). c \<le> checkedCount ?st2"
    by (meson order_trans)
  with so show "sorted (map fst (summaries ?st2))"
    unfolding su by (simp add: sorted_append)
qed

lemma batch_loop_progress:
  assumes B: "0 < B"
  shows "\<exists>ex st'. batch_loop B ab be ds i st = Some (ex, st') \<and>
     (summaries st \<noteq> [] \<and> sorted (map fst (summaries st)) \<and>
      fst (last (summaries st)) = checkedCount st \<and> checkedCount st = min i (length ds) \<longrightarrow>
      summaries st' \<noteq> [] \<and> sorted (map fst (summaries st')) \<and>
      fst (last (summaries st')) = checkedCount st' \<and> checkedCount st' \<le> length ds \<and>
      (ex = Finished \<longrightarrow> checkedCount st' = length ds))"
    (is "\<exists>ex st'. _ = Some (ex, st') \<and> (?I i st \<longrightarrow> ?J ex st')")
proof (rule batch_loop_rule [OF B, where P = "\<lambda>i st ex st'. ?I i st \<longrightarrow> ?J ex st'"])
  fix i and st :: run
  assume "\<not> i < length ds"
  then show "?I i st \<longrightarrow> ?J Finished st" by simp
next
  fix i and st :: run
  show "?I i st \<longrightarrow> ?J Broke st" by simp
next
  fix i e and st :: run
  show "?I i st \<longrightarrow> ?J (Threw e) (st\<lparr>requests := requests st @ [(i, slice ds i (i + B))]\<rparr>)"
    by simp
next
  fix i rs ex and st st' :: run
  let ?st1 = "st\<lparr>requests := requests st @ [(i, slice ds i (i + B))]\<rparr>"
  let ?st2 = "after_batch ?st1 (length ds) (slice ds i (i + B)) rs"
  assume inside: "i < length ds"
  assume IH: "?I (i + B) ?st2 \<longrightarrow> ?J ex st'"
  show "?I i st \<longrightarrow> ?J ex st'"
  proof
    assume I: "?I i st"
    have "?I (i + B) ?st2"
      using after_batch_progress [of ?st1 i ds B rs] I inside by simp
    with IH show "?J ex st'" by blast
  qed
qed

lemma batch_loop_started_clear:
  assumes B: "0 < B"
  shows "\<exists>ex st'. batch_loop B ab be ds i st = Some (ex, st') \<and>
     (\<forall>p \<in> set (requests st'). p \<in> set (requests st) \<or> \<not> ab (fst p))"
proof (rule batch_loop_rule [OF B, where P = "\<lambda>i st ex st'.
     \<forall>p \<in> set (requests st'). p \<in> set (requests st) \<or> \<not> ab (fst p)"])
  fix i and st :: run
  show "\<forall>p \<in> set (requests st). p \<in> set (requests st) \<or> \<not> ab (fst p)" by simp
  show "\<forall>p \<in> set (requests st). p \<in> set (requests st) \<or> \<not> ab (fst p)" by simp
next
  fix i e and st :: run
  assume "\<not> ab i"
  then show "\<forall>p \<in> set (requests (st\<lparr>requests := requests st @ [(i, slice ds i (i + B))]\<rparr>)).
      p \<in> set (requests st) \<or> \<not> ab (fst p)"
    by auto
next
  fix i rs ex and st st' :: run
  assume "\<not> ab i"
    and "\<forall>p \<in> set (requests st').
      p \<in> set (requests (after_batch (st\<lparr>requests := requests st @ [(i, slice ds i (i + B))]\<rparr>)
          (length ds) (slice ds i (i + B)) rs)) \<or> \<not> ab (fst p)"
  then show "\<forall>p \<in> set (requests st'). p \<in> set (requests st) \<or> \<not> ab (fst p)"
    by auto
qed

lemma batch_loop_stops_at_abort:
  assumes B: "0 < B" and k: "ab k"
  shows "\<exists>ex st'. batch_loop B ab be ds i st = Some (ex, st') \<and>
     (i \<le> k \<and> B dvd k - i \<longrightarrow>
      (\<forall>p \<in> set (requests st'). p \<in> set (requests st) \<or> fst p < k))"
proof (rule batch_loop_rule [OF B, where P = "\<lambda>i st ex st'. i \<le> k \<and> B dvd k - i \<longrightarrow>
      (\<forall>p \<in> set (requests st'). p \<in> set (requests st) \<or> fst p < k)"])
  fix i and st :: run
  show "i \<le> k \<and> B dvd k - i \<longrightarrow> (\<forall>p \<in> set (requests st). p \<in> set (requests st) \<or> fst p < k)"
    by simp
  show "i \<le> k \<and> B dvd k - i \<longrightarrow> (\<forall>p \<in> set (requests st). p \<in> set (requests st) \<or> fst p < k)"
    by simp
next
  fix i e and st :: run
  assume "\<not> ab i"
  with k have "i \<noteq> k" by auto
  then show "i \<le> k \<and> B dvd k - i \<longrightarrow>
      (\<forall>p \<in> set (requests (st\<lparr>requests := requests st @ [(i, slice ds i (i + B))]\<rparr>)).
         p \<in> set (requests st) \<or> fst p < k)"
    by auto
next
  fix i rs ex and st st' :: run
  assume clear: "\<not> ab i"
    and IH: "i + B \<le> k \<and> B dvd k - (i + B) \<longrightarrow>
      (\<forall>p \<in> set (requests st').
         p \<in> set (requests (after_batch (st\<lparr>requests := requests st @ [(i, slice ds i (i + B))]\<rparr>)
          (length ds) (slice ds i (i + B)) rs)) \<or> fst p < k)"
  show "i \<le> k \<and> B dvd k - i \<longrightarrow> (\<forall>p \<in> set (requests st'). p \<in> set (requests st) \<or> fst p < k)"
  proof
    assume a: "i \<le> k \<and> B dvd k - i"
    from clear k have "i \<noteq> k" by auto
    with a have lt: "i < k" by simp
    from a obtain m where m: "k - i = B * m" by (auto simp: dvd_def)
    with lt have "m \<noteq> 0" by (cases m) auto
    then obtain m' where m': "m = Suc m'" by (cases m) auto
    from m m' lt have next_le: "i + B \<le> k" by simp
    from m m' have "k - (i + B) = B * m'" by simp
    then have "B dvd k - (i + B)" by simp
    with IH next_le lt show "\<forall>p \<in> set (requests st'). p \<in> set (requests st) \<or> fst p < k"
      by auto
  qed
qed

lemma batch_loop_failed_request_is_last:
  assumes B: "0 < B"
  shows "\<exists>ex st'. batch_loop B ab be ds i st = Some (ex, st') \<and>
     (\<forall>p \<in> set (requests st'). p \<in> set (requests st) \<or>
        (i \<le> fst p \<and>
         (\<forall>e. checkDomainsWithBackend (be (fst p) (snd p)) = Inl e \<longrightarrow>
            ex = Threw e \<and>
            (\<forall>q \<in> set (requests st'). q \<in> set (requests st) \<or> fst q \<le> fst p))))"
    (is "\<exists>ex st'. _ = Some (ex, st') \<and> ?Q i st ex st'")
proof (rule batch_loop_rule [OF B, where P = ?Q])
  fix i and st :: run
  show "?Q i st Finished st" by simp
  show "?Q i st Broke st" by simp
next
  fix i e and st :: run
  assume "checkDomainsWithBackend (be i (slice ds i (i + B))) = Inl e"
  then show "?Q i st (Threw e) (st\<lparr>requests := requests st @ [(i, slice ds i (i + B))]\<rparr>)"
    by auto
next
  fix i rs ex and st st' :: run
  let ?st1 = "st\<lparr>requests := requests st @ [(i, slice ds i (i + B))]\<rparr>"
  assume ok: "checkDomainsWithBackend (be i (slice ds i (i + B))) = Inr rs"
    and IH: "?Q (i + B) (after_batch ?st1 (length ds) (slice ds i (i + B)) rs) ex st'"
  have req: "set (requests (after_batch ?st1 (length ds) (slice ds i (i + B)) rs)) =
      insert (i, slice ds i (i + B)) (set (requests st))" by simp
  show "?Q i st ex st'"
  proof
    fix p assume p: "p \<in> set (requests st')"
    from IH [rule_format, OF p, unfolded req]
    consider "p \<in> set (requests st)" | "p = (i, slice ds i (i + B))"
      | "i + B \<le> fst p" and "\<forall>e. checkDomainsWithBackend (be (fst p) (snd p)) = Inl e \<longrightarrow>
            ex = Threw e \<and>
            (\<forall>q \<in> set (requests st'). q \<in> insert (i, slice ds i (i + B)) (set (requests st)) \<or> fst q \<le> fst p)"
      by blast
    then show "p \<in> set (requests st) \<or>
        (i \<le> fst p \<and>
         (\<forall>e. checkDomainsWithBackend (be (fst p) (snd p)) = Inl e \<longrightarrow>
            ex = Threw e \<and>
            (\<forall>q \<in> set (requests st'). q \<in> set (requests st) \<or> fst q \<le> fst p)))"
    proof cases
      case 1
      then show ?thesis by simp
    next
      case 2
      with ok show ?thesis by simp
    next
      case 3
      then show ?thesis by fastforce
    qed
  qed
qed

lemma set_foldl_Set_add: "set (foldl Set_add acc xs) = set acc \<union> set xs"
  by (induction xs arbitrary: acc) (auto simp: Set_add_def)

lemma distinct_foldl_Set_add: "distinct acc \<Longrightarrow> distinct (foldl Set_add acc xs)"
  by (induction xs arbitrary: acc) (auto simp: Set_add_def)

lemma set_spread_Set: "set (spread_Set xs) = set xs"
  by (simp add: spread_Set_def set_foldl_Set_add)

lemma distinct_spread_Set: "distinct (spread_Set xs)"
  by (simp add: spread_Set_def distinct_foldl_Set_add)

lemma str_includes_iff: "str_includes s p \<longleftrightarrow> (\<exists>pre post. s = pre @ p @ post)"
proof (induction s)
  case Nil
  then show ?case by simp
next
  case (Cons c cs)
  show ?case
  proof
    assume "str_includes (c # cs) p"
    then consider "prefix p (c # cs)" | "str_includes cs p" by auto
    then show "\<exists>pre post. c # cs = pre @ p @ post"
    proof cases
      case 1
      then obtain post where "c # cs = p @ post" by (auto simp: prefix_def)
      then have "c # cs = [] @ p @ post" by simp
      then show ?thesis by blast
    next
      case 2
      with Cons.IH obtain pre post where "cs = pre @ p @ post" by blast
      then have "c # cs = (c # pre) @ p @ post" by simp
      then show ?thesis by blast
    qed
  next
    assume "\<exists>pre post. c # cs = pre @ p @ post"
    then obtain pre post where e: "c # cs = pre @ p @ post" by blast
    show "str_includes (c # cs) p"
    proof (cases pre)
      case Nil
      with e have "prefix p (c # cs)" by (simp add: prefix_def)
      then show ?thesis by simp
    next
      case (Cons a pre')
      with e have "cs = pre' @ p @ post" by simp
      with Cons.IH have "str_includes cs p" by blast
      then show ?thesis by simp
    qed
  qed
qed

lemma batch_loop_chunks:
  assumes B: "0 < B"
  shows "\<exists>ex st'. batch_loop B ab be ds i st = Some (ex, st') \<and>
     (\<forall>p \<in> set (requests st'). p \<in> set (requests st) \<or>
        (snd p = slice ds (fst p) (fst p + B) \<and> snd p \<noteq> [] \<and> length (snd p) \<le> B))"
    (is "\<exists>ex st'. _ = Some (ex, st') \<and> ?Q st st'")
proof (rule batch_loop_rule [OF B, where P = "\<lambda>i st ex st'. ?Q st st'"])
  fix i and st :: run
  show "?Q st st" by simp
  show "?Q st st" by simp
next
  fix i e and st :: run
  assume "i < length ds"
  with B show "?Q st (st\<lparr>requests := requests st @ [(i, slice ds i (i + B))]\<rparr>)"
    by (auto simp: slice_def)
next
  fix i rs ex and st st' :: run
  assume "i < length ds"
    and "?Q (after_batch (st\<lparr>requests := requests st @ [(i, slice ds i (i + B))]\<rparr>)
          (length ds) (slice ds i (i + B)) rs) st'"
  with B show "?Q st st'" by (auto simp: slice_def)
qed

lemma batch_loop_summaries_progress:
  assumes B: "0 < B"
  shows "\<exists>ex st'. batch_loop B ab be ds i st = Some (ex, st') \<and>
     (map fst (summaries st) = 0 # map fst (progress st) \<longrightarrow>
      map fst (summaries st') = 0 # map fst (progress st'))"
    (is "\<exists>ex st'. _ = Some (ex, st') \<and> ?Q st st'")
proof (rule batch_loop_rule [OF B, where P = "\<lambda>i st ex st'. ?Q st st'"])
  fix i and st :: run
  show "?Q st st" by simp
  show "?Q st st" by simp
next
  fix i e and st :: run
  show "?Q st (st\<lparr>requests := requests st @ [(i, slice ds i (i + B))]\<rparr>)" by simp
next
  fix i rs ex and st st' :: run
  assume "?Q (after_batch (st\<lparr>requests := requests st @ [(i, slice ds i (i + B))]\<rparr>)
          (length ds) (slice ds i (i + B)) rs) st'"
  then show "?Q st st'" by (simp add: after_batch_def Let_def)
qed

lemma run_checks_eq:
  "batch_loop B ab be ds 0
     \<lparr>checkedCount = 0, allAvailableDomains = [], summaries = [(0, length ds, 0)],
      progress = [], requests = []\<rparr> = Some (ex, st) \<Longrightarrow>
   run_checks B copy_buttons ab be JSON_parse ai ds =
     Some (finish copy_buttons JSON_parse ai ex st, st)"
  by (simp add: run_checks_def)

lemma batch_loop_available:
  assumes B: "0 < B"
    and quiet: "\<And>i. \<not> ab i"
    and verdicts: "\<And>i b. be i b = Replied (map (\<lambda>d. \<lparr>domain = d, availability = verdict d\<rparr>) b)"
  shows "\<exists>ex st'. batch_loop B ab be ds i st = Some (ex, st') \<and>
     allAvailableDomains st' =
       allAvailableDomains st @ filter (\<lambda>d. verdict d = Available) (drop i ds)"
proof (rule batch_loop_rule [OF B, where P = "\<lambda>i st ex st'.
     allAvailableDomains st' =
       allAvailableDomains st @ filter (\<lambda>d. verdict d = Available) (drop i ds)"])
  fix i and st :: run
  assume "\<not> i < length ds"
  then show "allAvailableDomains st =
      allAvailableDomains st @ filter (\<lambda>d. verdict d = Available) (drop i ds)"
    by simp
next
  fix i and st :: run
  assume "ab i"
  with quiet show "allAvailableDomains st =
      allAvailableDomains st @ filter (\<lambda>d. verdict d = Available) (drop i ds)"
    by simp
next
  fix i e and st :: run
  assume "checkDomainsWithBackend (be i (slice ds i (i + B))) = Inl e"
  then show "allAvailableDomains (st\<lparr>requests := requests st @ [(i, slice ds i (i + B))]\<rparr>) =
      allAvailableDomains st @ filter (\<lambda>d. verdict d = Available) (drop i ds)"
    by (simp add: verdicts checkDomainsWithBackend_def)
next
  fix i rs ex and st st' :: run
  let ?batch = "slice ds i (i + B)"
  let ?st1 = "st\<lparr>requests := requests st @ [(i, ?batch)]\<rparr>"
  assume ok: "checkDomainsWithBackend (be i ?batch) = Inr rs"
    and IH: "allAvailableDomains st' =
      allAvailableDomains (after_batch ?st1 (length ds) ?batch rs) @
        filter (\<lambda>d. verdict d = Available) (drop (i + B) ds)"
  from ok have rs: "rs = map (\<lambda>d. \<lparr>domain = d, availability = verdict d\<rparr>) ?batch"
    by (simp add: verdicts checkDomainsWithBackend_def)
  have "map domain (filter (\<lambda>r. availability r = Available) rs) =
      filter (\<lambda>d. verdict d = Available) ?batch"
    unfolding rs by (simp add: filter_map comp_def)
  then have "allAvailableDomains (after_batch ?st1 (length ds) ?batch rs) =
      allAvailableDomains st @ filter (\<lambda>d. verdict d = Available) ?batch"
    by (simp add: after_batch_def Let_def)
  with IH have "allAvailableDomains st' =
      allAvailableDomains st @ filter (\<lambda>d. verdict d = Available) (?batch @ drop (i + B) ds)"
    by simp
  then show "allAvailableDomains st' =
      allAvailableDomains st @ filter (\<lambda>d. verdict d = Available) (drop i ds)"
    by (simp only: slice_append_drop)
qed

lemma handler_check_domain_200:
  assumes "status (handler_check_domain resolver order req) = 200"
  shows "\<exists>b ds results. body req = Inr b \<and> domains b = Some ds \<and> ds \<noteq> [] \<and>
      handler_check_domain resolver order req = \<lparr>status = 200, payload = Results_body results\<rparr> \<and>
      length results = length ds \<and> map domain results = ds"
proof (cases "body req")
  case (Inl e)
  with assms show ?thesis by (simp add: handler_check_domain_def split: if_splits)
next
  case (Inr b)
  show ?thesis
  proof (cases "domains b")
    case None
    with Inr assms show ?thesis by (simp add: handler_check_domain_def split: if_splits)
  next
    case (Some ds)
    from Promise_all_probes [of "checkDomainAvailability resolver" order ds, OF checkDomainAvailability_Inr]
    obtain rs where rs: "Promise_all order (map (checkDomainAvailability resolver) ds) = Inr rs"
      "map domain rs = ds" by blast
    from rs(2) have len: "length rs = length ds" by (metis length_map)
    from Inr Some assms have ne: "ds \<noteq> []" and post: "http_method req = ''POST''"
      by (auto simp: handler_check_domain_def split: if_splits)
    with Inr Some rs len show ?thesis by (simp add: handler_check_domain_def)
  qed
qed

lemma valid_post_checked:
  "http_method req = ''POST'' \<and> body req = Inr b \<and> domains b = Some ds \<and> ds \<noteq> [] \<longrightarrow>
   (\<exists>results.
      handler_check_domain resolver order req = \<lparr>status = 200, payload = Results_body results\<rparr> \<and>
      length results = length ds \<and> map domain results = ds) \<and>
   (mode b = Some ''check'' \<and> apiKey = Some k \<and> k \<noteq> [] \<longrightarrow>
    (\<exists>results.
      orchestrator_handler apiKey ai resolver order req =
        \<lparr>status = 200, payload = Results_body results\<rparr> \<and>
      length results = length ds \<and> map domain results = ds))"
proof (intro impI conjI)
  assume a: "http_method req = ''POST'' \<and> body req = Inr b \<and> domains b = Some ds \<and> ds \<noteq> []"
  from Promise_all_probes [of "checkDomainAvailability resolver" order ds, OF checkDomainAvailability_Inr]
  obtain rs where rs: "Promise_all order (map (checkDomainAvailability resolver) ds) = Inr rs"
    "map domain rs = ds" by blast
  from rs(2) have len: "length rs = length ds" by (metis length_map)
  show "\<exists>results.
      handler_check_domain resolver order req = \<lparr>status = 200, payload = Results_body results\<rparr> \<and>
      length results = length ds \<and> map domain results = ds"
    using a rs len by (simp add: handler_check_domain_def)
  assume "mode b = Some ''check'' \<and> apiKey = Some k \<and> k \<noteq> []"
  then show "\<exists>results.
      orchestrator_handler apiKey ai resolver order req =
        \<lparr>status = 200, payload = Results_body results\<rparr> \<and>
      length results = length ds \<and> map domain results = ds"
    using a rs len by (simp add: orchestrator_handler_def)
qed

lemma take_add_slice: "take i ds @ slice ds i (i + B) = take (i + B) ds"
  by (simp only: slice_def add_diff_cancel_left' take_add)

lemma batch_loop_prefix:
  assumes B: "0 < B"
  shows "\<exists>ex st'. batch_loop B ab be ds i st = Some (ex, st') \<and>
     (concat (map snd (requests st)) = take i ds \<longrightarrow>
      (\<exists>n. concat (map snd (requests st')) = take n ds))"
    (is "\<exists>ex st'. _ = Some (ex, st') \<and> ?Q i st st'")
proof (rule batch_loop_rule [OF B, where P = "\<lambda>i st ex st'. ?Q i st st'"])
  fix i and st :: run
  show "?Q i st st" by blast
  show "?Q i st st" by blast
next
  fix i e and st :: run
  show "?Q i st (st\<lparr>requests := requests st @ [(i, slice ds i (i + B))]\<rparr>)"
  proof
    assume "concat (map snd (requests st)) = take i ds"
    then have "concat (map snd (requests (st\<lparr>requests := requests st @ [(i, slice ds i (i + B))]\<rparr>)))
        = take (i + B) ds"
      by (simp add: take_add_slice)
    then show "\<exists>n. concat (map snd (requests (st\<lparr>requests := requests st @ [(i, slice ds i (i + B))]\<rparr>)))
        = take n ds" ..
  qed
next
  fix i rs ex and st st' :: run
  let ?st2 = "after_batch (st\<lparr>requests := requests st @ [(i, slice ds i (i + B))]\<rparr>)
          (length ds) (slice ds i (i + B)) rs"
  assume IH: "?Q (i + B) ?st2 st'"
  show "?Q i st st'"
  proof
    assume "concat (map snd (requests st)) = take i ds"
    then have "concat (map snd (requests ?st2)) = take (i + B) ds"
      by (simp add: take_add_slice)
    with IH show "\<exists>n. concat (map snd (requests st')) = take n ds" by (rule mp)
  qed
qed


lemma run_unique:
  assumes "batch_loop B ab be ds i s = Some (ex, st)"
    and "\<exists>ex' st'. batch_loop B ab be ds i s = Some (ex', st') \<and> Q ex' st'"
  shows "Q ex st"
  using assms by auto

section \<open>The claims\<close>

text \<open>
  Claim C1 (batch runner coverage), as amended, for the loop of the click handler. Let
  the batch size be at least 1 and the input domains be pairwise distinct. Every run
  returns. Each batch posted is the next slice of the input, of at least one and at
  most \<open>B\<close> domains; the batches posted, one after the other, are a prefix of the input
  list, so no domain is ever posted twice. A request that fails is the last one posted:
  no later batch is probed, and the run ends as cancelled on an AbortError and with the
  message of the exception otherwise. When the signal is never aborted and the backend
  answers every request with results, the batches posted are the whole input list, each
  domain exactly once; and when the backend gives each domain its verdict, the available
  domains collected are the input domains whose verdict is \<^verbatim>\<open>Available\<close>, in input order.
\<close>

theorem batch_runner_coverage:
  "0 < B \<and> distinct ds \<longrightarrow>
   (\<exists>t st. run_checks B copy_buttons aborted backend JSON_parse ai ds = Some (t, st) \<and>
      (\<forall>p \<in> set (requests st).
         snd p = slice ds (fst p) (fst p + B) \<and> snd p \<noteq> [] \<and> length (snd p) \<le> B) \<and>
      (\<exists>n. concat (map snd (requests st)) = take n ds) \<and>
      distinct (concat (map snd (requests st))) \<and>
      (\<forall>p \<in> set (requests st). \<forall>e.
         checkDomainsWithBackend (backend (fst p) (snd p)) = Inl e \<longrightarrow>
           (\<forall>q \<in> set (requests st). fst q \<le> fst p) \<and>
           t = (if exn_name e = ''AbortError'' then Cancelled else Failed (exn_message e))) \<and>
      ((\<forall>i. \<not> aborted i) \<and> (\<forall>i batch. \<exists>results. backend i batch = Replied results) \<longrightarrow>
         concat (map snd (requests st)) = ds \<and>
         set (concat (map snd (requests st))) = set ds) \<and>
      ((\<forall>i. \<not> aborted i) \<and>
       (\<forall>i batch. backend i batch =
          Replied (map (\<lambda>d. \<lparr>domain = d, availability = verdict d\<rparr>) batch)) \<longrightarrow>
         allAvailableDomains st = filter (\<lambda>d. verdict d = Available) ds))"
proof
  assume a: "0 < B \<and> distinct ds"
  then have B: "0 < B" and d: "distinct ds" by simp_all
  let ?st0 = "\<lparr>checkedCount = 0, allAvailableDomains = [], summaries = [(0, length ds, 0)],
      progress = [], requests = []\<rparr>"
  from batch_loop_chunks [OF B, of aborted backend ds 0 ?st0]
  obtain ex st where run: "batch_loop B aborted backend ds 0 ?st0 = Some (ex, st)"
    and chunks0: "\<forall>p \<in> set (requests st). p \<in> set (requests ?st0) \<or>
        (snd p = slice ds (fst p) (fst p + B) \<and> snd p \<noteq> [] \<and> length (snd p) \<le> B)"
    by (elim exE conjE) (rule that, assumption+)
  from run have rc: "run_checks B copy_buttons aborted backend JSON_parse ai ds =
      Some (finish copy_buttons JSON_parse ai ex st, st)" by (rule run_checks_eq)
  from chunks0 have chunks: "\<forall>p \<in> set (requests st).
         snd p = slice ds (fst p) (fst p + B) \<and> snd p \<noteq> [] \<and> length (snd p) \<le> B"
    by auto
  from run_unique [OF run batch_loop_prefix [OF B, of aborted backend ds 0 ?st0]]
  have prefix: "\<exists>n. concat (map snd (requests st)) = take n ds" by simp
  then obtain n where n: "concat (map snd (requests st)) = take n ds" ..
  from d have dist: "distinct (concat (map snd (requests st)))" unfolding n by simp
  have failed: "\<forall>p \<in> set (requests st). \<forall>e.
         checkDomainsWithBackend (backend (fst p) (snd p)) = Inl e \<longrightarrow>
           (\<forall>q \<in> set (requests st). fst q \<le> fst p) \<and>
           finish copy_buttons JSON_parse ai ex st =
             (if exn_name e = ''AbortError'' then Cancelled else Failed (exn_message e))"
  proof (intro ballI allI impI)
    fix p e
    assume p: "p \<in> set (requests st)"
      and e: "checkDomainsWithBackend (backend (fst p) (snd p)) = Inl e"
    from run_unique [OF run batch_loop_failed_request_is_last [OF B, of aborted backend ds 0 ?st0]]
    have "\<forall>p \<in> set (requests st). p \<in> set (requests ?st0) \<or>
        (0 \<le> fst p \<and>
         (\<forall>e. checkDomainsWithBackend (backend (fst p) (snd p)) = Inl e \<longrightarrow>
            ex = Threw e \<and>
            (\<forall>q \<in> set (requests st). q \<in> set (requests ?st0) \<or> fst q \<le> fst p)))" .
    with p e have thrown: "ex = Threw e"
      and latest: "\<forall>q \<in> set (requests st). fst q \<le> fst p"
      by auto
    from thrown have "finish copy_buttons JSON_parse ai ex st =
        (if exn_name e = ''AbortError'' then Cancelled else Failed (exn_message e))"
      by (simp add: finish_def Let_def)
    with latest show "(\<forall>q \<in> set (requests st). fst q \<le> fst p) \<and>
           finish copy_buttons JSON_parse ai ex st =
             (if exn_name e = ''AbortError'' then Cancelled else Failed (exn_message e))"
      by (rule conjI)
  qed
  have whole: "(\<forall>i. \<not> aborted i) \<and> (\<forall>i batch. \<exists>results. backend i batch = Replied results) \<longrightarrow>
         concat (map snd (requests st)) = ds \<and>
         set (concat (map snd (requests st))) = set ds"
  proof
    assume env: "(\<forall>i. \<not> aborted i) \<and> (\<forall>i batch. \<exists>results. backend i batch = Replied results)"
    then have quiet: "\<And>i. \<not> aborted i"
      and answered: "\<And>i b. \<exists>rs. backend i b = Replied rs" by simp_all
    from run_unique [OF run batch_loop_coverage [of B aborted backend ds 0 ?st0, OF B quiet answered]]
    have cov: "concat (map snd (requests st)) = ds" by simp
    show "concat (map snd (requests st)) = ds \<and>
         set (concat (map snd (requests st))) = set ds"
      unfolding cov by simp
  qed
  have avail: "(\<forall>i. \<not> aborted i) \<and>
       (\<forall>i batch. backend i batch =
          Replied (map (\<lambda>d. \<lparr>domain = d, availability = verdict d\<rparr>) batch)) \<longrightarrow>
         allAvailableDomains st = filter (\<lambda>d. verdict d = Available) ds"
  proof
    assume env: "(\<forall>i. \<not> aborted i) \<and>
       (\<forall>i batch. backend i batch =
          Replied (map (\<lambda>d. \<lparr>domain = d, availability = verdict d\<rparr>) batch))"
    then have quiet: "\<And>i. \<not> aborted i"
      and verdicts: "\<And>i b. backend i b =
          Replied (map (\<lambda>d. \<lparr>domain = d, availability = verdict d\<rparr>) b)" by simp_all
    from run_unique [OF run
        batch_loop_available [of B aborted backend verdict ds 0 ?st0, OF B quiet verdicts]]
    show "allAvailableDomains st = filter (\<lambda>d. verdict d = Available) ds" by simp
  qed
  show "\<exists>t st. run_checks B copy_buttons aborted backend JSON_parse ai ds = Some (t, st) \<and>
      (\<forall>p \<in> set (requests st).
         snd p = slice ds (fst p) (fst p + B) \<and> snd p \<noteq> [] \<and> length (snd p) \<le> B) \<and>
      (\<exists>n. concat (map snd (requests st)) = take n ds) \<and>
      distinct (concat (map snd (requests st))) \<and>
      (\<forall>p \<in> set (requests st). \<forall>e.
         checkDomainsWithBackend (backend (fst p) (snd p)) = Inl e \<longrightarrow>
           (\<forall>q \<in> set (requests st). fst q \<le> fst p) \<and>
           t = (if exn_name e = ''AbortError'' then Cancelled else Failed (exn_message e))) \<and>
      ((\<forall>i. \<not> aborted i) \<and> (\<forall>i batch. \<exists>results. backend i batch = Replied results) \<longrightarrow>
         concat (map snd (requests st)) = ds \<and>
         set (concat (map snd (requests st))) = set ds) \<and>
      ((\<forall>i. \<not> aborted i) \<and>
       (\<forall>i batch. backend i batch =
          Replied (map (\<lambda>d. \<lparr>domain = d, availability = verdict d\<rparr>) batch)) \<longrightarrow>
         allAvailableDomains st = filter (\<lambda>d. verdict d = Available) ds)"
  proof (rule exI [of _ "finish copy_buttons JSON_parse ai ex st"], rule exI [of _ st],
      intro conjI)
    show "run_checks B copy_buttons aborted backend JSON_parse ai ds =
      Some (finish copy_buttons JSON_parse ai ex st, st)" by (rule rc)
  qed (rule chunks prefix dist failed whole avail)+
qed

text \<open>
  Three domains in batches of two, every request answered: all three are posted and
  found available.
\<close>

theorem batch_runner_coverage_witness:
  "\<exists>t st. run_checks 2 1 (\<lambda>i. False)
             (\<lambda>i batch. Replied (map (\<lambda>d. \<lparr>domain = d, availability = Available\<rparr>) batch))
             (\<lambda>s. None) (Inr None) [''a.com'', ''b.io'', ''c.net''] = Some (t, st) \<and>
      concat (map snd (requests st)) = [''a.com'', ''b.io'', ''c.net''] \<and>
      allAvailableDomains st = [''a.com'', ''b.io'', ''c.net'']"
proof -
  have pre: "0 < (2::nat) \<and> distinct [''a.com'', ''b.io'', ''c.net'']" by simp
  have env: "(\<forall>i. \<not> (\<lambda>i::nat. False) i) \<and>
      (\<forall>i batch. \<exists>results.
         (\<lambda>(i::nat) batch. Replied (map (\<lambda>d. \<lparr>domain = d, availability = Available\<rparr>) batch)) i batch
           = Replied results)"
    by simp
  have env': "(\<forall>i. \<not> (\<lambda>i::nat. False) i) \<and>
      (\<forall>i batch.
         (\<lambda>(i::nat) batch. Replied (map (\<lambda>d. \<lparr>domain = d, availability = Available\<rparr>) batch)) i batch
           = Replied (map (\<lambda>d. \<lparr>domain = d, availability = (\<lambda>d. Available) d\<rparr>) batch))"
    by simp
  from batch_runner_coverage [of 2 "[''a.com'', ''b.io'', ''c.net'']" 1 "\<lambda>i. False"
      "\<lambda>i batch. Replied (map (\<lambda>d. \<lparr>domain = d, availability = Available\<rparr>) batch)"
      "\<lambda>s. None" "Inr None" "\<lambda>d. Available", THEN mp, OF pre]
  obtain t st where
    run: "run_checks 2 1 (\<lambda>i. False)
             (\<lambda>i batch. Replied (map (\<lambda>d. \<lparr>domain = d, availability = Available\<rparr>) batch))
             (\<lambda>s. None) (Inr None) [''a.com'', ''b.io'', ''c.net''] = Some (t, st)"
    and whole: "(\<forall>i. \<not> (\<lambda>i::nat. False) i) \<and>
      (\<forall>i batch. \<exists>results.
         (\<lambda>(i::nat) batch. Replied (map (\<lambda>d. \<lparr>domain = d, availability = Available\<rparr>) batch)) i batch
           = Replied results) \<longrightarrow>
         concat (map snd (requests st)) = [''a.com'', ''b.io'', ''c.net''] \<and>
         set (concat (map snd (requests st))) = set [''a.com'', ''b.io'', ''c.net'']"
    and avail: "(\<forall>i. \<not> (\<lambda>i::nat. False) i) \<and>
      (\<forall>i batch.
         (\<lambda>(i::nat) batch. Replied (map (\<lambda>d. \<lparr>domain = d, availability = Available\<rparr>) batch)) i batch
           = Replied (map (\<lambda>d. \<lparr>domain = d, availability = (\<lambda>d. Available) d\<rparr>) batch)) \<longrightarrow>
         allAvailableDomains st =
           filter (\<lambda>d. (\<lambda>d. Available) d = Available) [''a.com'', ''b.io'', ''c.net'']"
    by (elim exE conjE) (rule that, assumption+)
  from whole env have w: "concat (map snd (requests st)) = [''a.com'', ''b.io'', ''c.net'']"
    by simp
  from avail env' have v: "allAvailableDomains st = [''a.com'', ''b.io'', ''c.net'']"
    by simp
  from run w v show ?thesis by (intro exI conjI)
qed

text \<open>
  Without any cancellation, a backend that answers 500 to the first batch ends the run:
  the second domain is never posted.
\<close>

theorem batch_runner_coverage_counterexample:
  "run_checks 1 1 (\<lambda>i. False) (\<lambda>i batch. Not_ok) (\<lambda>s. None) (Inr None) [''a.com'', ''b.io''] =
     Some (Failed ''The server returned an error. Please try again later.'',
           \<lparr>checkedCount = 0, allAvailableDomains = [], summaries = [(0, 2, 0)],
            progress = [], requests = [(0, [''a.com''])]\<rparr>)"
  by (simp add: run_checks_def batch_loop.simps slice_def checkDomainsWithBackend_def finish_def
      Let_def)

text \<open>
  Claim C2 (prober classification and totality). For every resolver behaviour and every
  domain the prober returns a result for that very domain and never raises. A resolved
  response whose \<^verbatim>\<open>Status\<close> is 3 gives \<^verbatim>\<open>Available\<close>; any other resolved value that is
  not null gives \<^verbatim>\<open>Unavailable\<close>; the abort timer firing before the response gives
  \<^verbatim>\<open>Timeout\<close>; a network failure, a body that is not JSON and the body \<^verbatim>\<open>null\<close> give
  \<^verbatim>\<open>Error\<close>.
\<close>

theorem checkDomainAvailability_classification:
  "(\<exists>a. checkDomainAvailability resolver d = Inr \<lparr>domain = d, availability = a\<rparr>) \<and>
   (\<forall>data. resolver d = Responds (Json_value data) \<and> get_prop data ''Status'' = Some (JNum 3) \<longrightarrow>
      checkDomainAvailability resolver d = Inr \<lparr>domain = d, availability = Available\<rparr>) \<and>
   (\<forall>data. resolver d = Responds (Json_value data) \<and> data \<noteq> JNull \<and>
        get_prop data ''Status'' \<noteq> Some (JNum 3) \<longrightarrow>
      checkDomainAvailability resolver d = Inr \<lparr>domain = d, availability = Unavailable\<rparr>) \<and>
   (resolver d = Timer_fires \<longrightarrow>
      checkDomainAvailability resolver d = Inr \<lparr>domain = d, availability = Timeout\<rparr>) \<and>
   (resolver d = Network_failure \<or> resolver d = Responds Json_rejects \<or>
      resolver d = Responds (Json_value JNull) \<longrightarrow>
      checkDomainAvailability resolver d = Inr \<lparr>domain = d, availability = Error\<rparr>)"
proof (intro conjI allI impI)
  show "\<exists>a. checkDomainAvailability resolver d = Inr \<lparr>domain = d, availability = a\<rparr>"
    by (rule checkDomainAvailability_Inr)
next
  fix data
  assume "resolver d = Responds (Json_value data) \<and> get_prop data ''Status'' = Some (JNum 3)"
  then show "checkDomainAvailability resolver d = Inr \<lparr>domain = d, availability = Available\<rparr>"
    by (auto simp: checkDomainAvailability_def checkDomainAvailability_try_def get_prop_def)
next
  fix data
  assume "resolver d = Responds (Json_value data) \<and> data \<noteq> JNull \<and>
        get_prop data ''Status'' \<noteq> Some (JNum 3)"
  then show "checkDomainAvailability resolver d = Inr \<lparr>domain = d, availability = Unavailable\<rparr>"
    by (simp add: checkDomainAvailability_def checkDomainAvailability_try_def)
next
  assume "resolver d = Timer_fires"
  then show "checkDomainAvailability resolver d = Inr \<lparr>domain = d, availability = Timeout\<rparr>"
    by (simp add: checkDomainAvailability_def checkDomainAvailability_try_def)
next
  assume "resolver d = Network_failure \<or> resolver d = Responds Json_rejects \<or>
      resolver d = Responds (Json_value JNull)"
  then show "checkDomainAvailability resolver d = Inr \<lparr>domain = d, availability = Error\<rparr>"
    by (auto simp: checkDomainAvailability_def checkDomainAvailability_try_def)
qed

text \<open>The four classes on concrete resolver answers.\<close>

theorem checkDomainAvailability_classification_witness:
  "checkDomainAvailability (\<lambda>d. Responds (Json_value (JObj [(''Status'', JNum 3)]))) ''foo.com''
     = Inr \<lparr>domain = ''foo.com'', availability = Available\<rparr> \<and>
   checkDomainAvailability (\<lambda>d. Responds (Json_value (JObj [(''Status'', JNum 0)]))) ''bar.io''
     = Inr \<lparr>domain = ''bar.io'', availability = Unavailable\<rparr> \<and>
   checkDomainAvailability (\<lambda>d. Timer_fires) ''slow.net''
     = Inr \<lparr>domain = ''slow.net'', availability = Timeout\<rparr> \<and>
   checkDomainAvailability (\<lambda>d. Responds Json_rejects) ''odd.org''
     = Inr \<lparr>domain = ''odd.org'', availability = Error\<rparr>"
  using checkDomainAvailability_classification
      [of "\<lambda>d. Responds (Json_value (JObj [(''Status'', JNum 3)]))" "''foo.com''"]
    checkDomainAvailability_classification
      [of "\<lambda>d. Responds (Json_value (JObj [(''Status'', JNum 0)]))" "''bar.io''"]
    checkDomainAvailability_classification [of "\<lambda>d. Timer_fires" "''slow.net''"]
    checkDomainAvailability_classification [of "\<lambda>d. Responds Json_rejects" "''odd.org''"]
  by (simp add: get_prop_def)

text \<open>
  Claim C3 (progress monotonicity), as amended, for the loop of the click handler. Let
  the batch size be at least 1. Every run returns, cancelled or not; the
  \<^verbatim>\<open>checkedCount\<close> values shown (the initial 0, then one per finished batch) are
  non-decreasing, the last one is the final \<^verbatim>\<open>checkedCount\<close>, which is at most the
  number \<open>N\<close> of domains, and it equals \<open>N\<close> when the signal is never aborted and the
  backend answers every request with results.
\<close>

theorem progress_monotone:
  "0 < B \<longrightarrow>
   (\<exists>t st. run_checks B copy_buttons aborted backend JSON_parse ai ds = Some (t, st) \<and>
      sorted (map fst (summaries st)) \<and>
      map fst (summaries st) = 0 # map fst (progress st) \<and>
      last (map fst (summaries st)) = checkedCount st \<and>
      checkedCount st \<le> length ds \<and>
      ((\<forall>i. \<not> aborted i) \<and> (\<forall>i batch. \<exists>results. backend i batch = Replied results) \<longrightarrow>
       checkedCount st = length ds))"
proof
  assume B: "0 < B"
  let ?st0 = "\<lparr>checkedCount = 0, allAvailableDomains = [], summaries = [(0, length ds, 0)],
      progress = [], requests = []\<rparr>"
  from batch_loop_progress [OF B, of aborted backend ds 0 ?st0]
  obtain ex st where run: "batch_loop B aborted backend ds 0 ?st0 = Some (ex, st)"
    and p: "summaries st \<noteq> [] \<and> sorted (map fst (summaries st)) \<and>
      fst (last (summaries st)) = checkedCount st \<and> checkedCount st \<le> length ds \<and>
      (ex = Finished \<longrightarrow> checkedCount st = length ds)"
    by auto
  from batch_loop_summaries_progress [OF B, of aborted backend ds 0 ?st0]
  obtain ex' st' where run': "batch_loop B aborted backend ds 0 ?st0 = Some (ex', st')"
    and q': "map fst (summaries ?st0) = 0 # map fst (progress ?st0) \<longrightarrow>
      map fst (summaries st') = 0 # map fst (progress st')"
    by (elim exE conjE) (rule that, assumption+)
  from run run' have "st' = st" by simp
  with q' have q: "map fst (summaries st) = 0 # map fst (progress st)" by simp
  from p have l: "last (map fst (summaries st)) = checkedCount st" by (simp add: last_map)
  have fin: "(\<forall>i. \<not> aborted i) \<and> (\<forall>i batch. \<exists>results. backend i batch = Replied results) \<longrightarrow>
       checkedCount st = length ds"
  proof
    assume env: "(\<forall>i. \<not> aborted i) \<and> (\<forall>i batch. \<exists>results. backend i batch = Replied results)"
    then have quiet: "\<And>i. \<not> aborted i"
      and answered: "\<And>i b. \<exists>rs. backend i b = Replied rs" by simp_all
    from batch_loop_coverage [of B aborted backend ds 0 ?st0, OF B quiet answered]
    obtain st'' where "batch_loop B aborted backend ds 0 ?st0 = Some (Finished, st'')" by auto
    with run have "ex = Finished" by simp
    with p show "checkedCount st = length ds" by simp
  qed
  from run have rc: "run_checks B copy_buttons aborted backend JSON_parse ai ds =
      Some (finish copy_buttons JSON_parse ai ex st, st)" by (rule run_checks_eq)
  show "\<exists>t st. run_checks B copy_buttons aborted backend JSON_parse ai ds = Some (t, st) \<and>
      sorted (map fst (summaries st)) \<and>
      map fst (summaries st) = 0 # map fst (progress st) \<and>
      last (map fst (summaries st)) = checkedCount st \<and>
      checkedCount st \<le> length ds \<and>
      ((\<forall>i. \<not> aborted i) \<and> (\<forall>i batch. \<exists>results. backend i batch = Replied results) \<longrightarrow>
       checkedCount st = length ds)"
  proof (intro exI conjI)
    show "run_checks B copy_buttons aborted backend JSON_parse ai ds =
      Some (finish copy_buttons JSON_parse ai ex st, st)" by (rule rc)
    show "sorted (map fst (summaries st))" using p by simp
    show "map fst (summaries st) = 0 # map fst (progress st)" by (rule q)
    show "last (map fst (summaries st)) = checkedCount st" by (rule l)
    show "checkedCount st \<le> length ds" using p by simp
    show "(\<forall>i. \<not> aborted i) \<and> (\<forall>i batch. \<exists>results. backend i batch = Replied results) \<longrightarrow>
       checkedCount st = length ds" by (rule fin)
  qed
qed

text \<open>Three domains in batches of two: the counter ends at 3.\<close>

theorem progress_monotone_witness:
  "\<exists>t st. run_checks 2 1 (\<lambda>i. False)
              (\<lambda>i batch. Replied (map (\<lambda>d. \<lparr>domain = d, availability = Available\<rparr>) batch))
              (\<lambda>s. None) (Inr None) [''a.com'', ''b.io'', ''c.net''] = Some (t, st) \<and>
      sorted (map fst (summaries st)) \<and>
      checkedCount st = length [''a.com'', ''b.io'', ''c.net'']"
proof -
  have B: "0 < (2::nat)" by simp
  have env: "(\<forall>i. \<not> (\<lambda>i::nat. False) i) \<and>
      (\<forall>i batch. \<exists>results.
         (\<lambda>(i::nat) batch. Replied (map (\<lambda>d. \<lparr>domain = d, availability = Available\<rparr>) batch)) i batch
           = Replied results)"
    by simp
  from progress_monotone [of 2 1 "\<lambda>i. False"
      "\<lambda>i batch. Replied (map (\<lambda>d. \<lparr>domain = d, availability = Available\<rparr>) batch)"
      "\<lambda>s. None" "Inr None" "[''a.com'', ''b.io'', ''c.net'']", THEN mp, OF B]
  obtain t st2 where
    s2: "run_checks 2 1 (\<lambda>i. False)
              (\<lambda>i batch. Replied (map (\<lambda>d. \<lparr>domain = d, availability = Available\<rparr>) batch))
              (\<lambda>s. None) (Inr None) [''a.com'', ''b.io'', ''c.net''] = Some (t, st2)"
    and o2: "sorted (map fst (summaries st2))"
    and f2: "(\<forall>i. \<not> (\<lambda>i::nat. False) i) \<and>
      (\<forall>i batch. \<exists>results.
         (\<lambda>(i::nat) batch. Replied (map (\<lambda>d. \<lparr>domain = d, availability = Available\<rparr>) batch)) i batch
           = Replied results) \<longrightarrow> checkedCount st2 = length [''a.com'', ''b.io'', ''c.net'']"
    by (elim exE conjE) (rule that, assumption+)
  from f2 env have c2: "checkedCount st2 = length [''a.com'', ''b.io'', ''c.net'']" by (rule mp)
  from s2 o2 c2 show ?thesis by (intro exI conjI)
qed

text \<open>
  An uncancelled run whose only request fails on the network ends with
  \<^verbatim>\<open>checkedCount\<close> 0 of 1.
\<close>

theorem progress_monotone_counterexample:
  "run_checks 50 1 (\<lambda>i. False) (\<lambda>i batch. Fetch_failed) (\<lambda>s. None) (Inr None) [''a.com''] =
     Some (Failed ''Failed to fetch'',
           \<lparr>checkedCount = 0, allAvailableDomains = [], summaries = [(0, 1, 0)],
            progress = [], requests = [(0, [''a.com''])]\<rparr>)"
  by (simp add: run_checks_def batch_loop.simps slice_def checkDomainsWithBackend_def finish_def
      Let_def)

text \<open>
  Claim C4 (cancellation at chunk boundaries). If the signal is aborted when the loop
  is first reached, the run posts no batch and ends as cancelled with an empty list of
  available domains. In every run, a batch is posted only at a loop head where the
  signal is not aborted; no batch is posted at or after a loop head (an index that is a
  multiple of the batch size) where the signal is aborted; and a request aborted in
  flight ends the run as cancelled and is the last one posted.
\<close>

theorem cancellation_at_chunk_boundaries:
  "(ds \<noteq> [] \<and> aborted 0 \<longrightarrow>
      (\<exists>st. run_checks B copy_buttons aborted backend JSON_parse ai ds = Some (Cancelled, st) \<and>
         requests st = [] \<and> allAvailableDomains st = [])) \<and>
   (0 < B \<longrightarrow>
      (\<exists>t st. run_checks B copy_buttons aborted backend JSON_parse ai ds = Some (t, st) \<and>
         (\<forall>p \<in> set (requests st).
            \<not> aborted (fst p) \<and>
            (\<forall>k. aborted k \<and> B dvd k \<longrightarrow> fst p < k) \<and>
            (backend (fst p) (snd p) = Fetch_aborted \<longrightarrow>
               t = Cancelled \<and> (\<forall>q \<in> set (requests st). fst q \<le> fst p)))))"
proof (intro conjI impI)
  let ?st0 = "\<lparr>checkedCount = 0, allAvailableDomains = [], summaries = [(0, length ds, 0)],
      progress = [], requests = []\<rparr>"
  assume "ds \<noteq> [] \<and> aborted 0"
  then have "batch_loop B aborted backend ds 0 ?st0 = Some (Broke, ?st0)"
    by (subst batch_loop.simps) simp
  then have "run_checks B copy_buttons aborted backend JSON_parse ai ds = Some (finish copy_buttons JSON_parse ai Broke ?st0, ?st0)"
    by (rule run_checks_eq)
  then show "\<exists>st. run_checks B copy_buttons aborted backend JSON_parse ai ds = Some (Cancelled, st) \<and>
         requests st = [] \<and> allAvailableDomains st = []"
    by (simp add: finish_def Let_def)
next
  let ?st0 = "\<lparr>checkedCount = 0, allAvailableDomains = [], summaries = [(0, length ds, 0)],
      progress = [], requests = []\<rparr>"
  assume B: "0 < B"
  from batch_loop_started_clear [OF B, of aborted backend ds 0 ?st0]
  obtain ex st where run: "batch_loop B aborted backend ds 0 ?st0 = Some (ex, st)"
    and clear: "\<forall>p \<in> set (requests st). p \<in> set (requests ?st0) \<or> \<not> aborted (fst p)"
    by (elim exE conjE) (rule that, assumption+)
  from run have rc: "run_checks B copy_buttons aborted backend JSON_parse ai ds =
      Some (finish copy_buttons JSON_parse ai ex st, st)" by (rule run_checks_eq)
  have each: "\<forall>p \<in> set (requests st).
            \<not> aborted (fst p) \<and>
            (\<forall>k. aborted k \<and> B dvd k \<longrightarrow> fst p < k) \<and>
            (backend (fst p) (snd p) = Fetch_aborted \<longrightarrow>
               finish copy_buttons JSON_parse ai ex st = Cancelled \<and> (\<forall>q \<in> set (requests st). fst q \<le> fst p))"
  proof
    fix p assume p: "p \<in> set (requests st)"
    from clear p have c1: "\<not> aborted (fst p)" by auto
    have c2: "\<forall>k. aborted k \<and> B dvd k \<longrightarrow> fst p < k"
    proof (intro allI impI)
      fix k assume k: "aborted k \<and> B dvd k"
      then have ak: "aborted k" by simp
      from batch_loop_stops_at_abort [of B aborted k backend ds 0 ?st0, OF B ak]
      obtain ex' st' where run': "batch_loop B aborted backend ds 0 ?st0 = Some (ex', st')"
        and stop: "0 \<le> k \<and> B dvd k - 0 \<longrightarrow>
          (\<forall>p \<in> set (requests st'). p \<in> set (requests ?st0) \<or> fst p < k)"
        by (elim exE conjE) (rule that, assumption+)
      from run run' have "st' = st" by simp
      with stop k p show "fst p < k" by auto
    qed
    have c3: "backend (fst p) (snd p) = Fetch_aborted \<longrightarrow>
               finish copy_buttons JSON_parse ai ex st = Cancelled \<and> (\<forall>q \<in> set (requests st). fst q \<le> fst p)"
    proof
      assume ab: "backend (fst p) (snd p) = Fetch_aborted"
      from batch_loop_failed_request_is_last [OF B, of aborted backend ds 0 ?st0]
      obtain ex' st' where run': "batch_loop B aborted backend ds 0 ?st0 = Some (ex', st')"
        and lastq: "\<forall>p \<in> set (requests st'). p \<in> set (requests ?st0) \<or>
          (0 \<le> fst p \<and>
           (\<forall>e. checkDomainsWithBackend (backend (fst p) (snd p)) = Inl e \<longrightarrow>
              ex' = Threw e \<and>
              (\<forall>q \<in> set (requests st'). q \<in> set (requests ?st0) \<or> fst q \<le> fst p)))"
        by (elim exE conjE) (rule that, assumption+)
      from run run' have eq: "st' = st" "ex' = ex" by simp_all
      from ab have "checkDomainsWithBackend (backend (fst p) (snd p)) =
          Inl (Exn ''AbortError'' ''The user aborted a request.'')"
        by (simp add: checkDomainsWithBackend_def)
      with lastq p eq have thrown: "ex = Threw (Exn ''AbortError'' ''The user aborted a request.'')"
        and latest: "\<forall>q \<in> set (requests st). fst q \<le> fst p"
        by auto
      from thrown have "finish copy_buttons JSON_parse ai ex st = Cancelled" by (simp add: finish_def Let_def)
      with latest show "finish copy_buttons JSON_parse ai ex st = Cancelled \<and>
          (\<forall>q \<in> set (requests st). fst q \<le> fst p)" by (rule conjI [rotated])
    qed
    from c1 c2 c3 show "\<not> aborted (fst p) \<and>
            (\<forall>k. aborted k \<and> B dvd k \<longrightarrow> fst p < k) \<and>
            (backend (fst p) (snd p) = Fetch_aborted \<longrightarrow>
               finish copy_buttons JSON_parse ai ex st = Cancelled \<and> (\<forall>q \<in> set (requests st). fst q \<le> fst p))"
      by (intro conjI)
  qed
  from rc each show "\<exists>t st. run_checks B copy_buttons aborted backend JSON_parse ai ds = Some (t, st) \<and>
         (\<forall>p \<in> set (requests st).
            \<not> aborted (fst p) \<and>
            (\<forall>k. aborted k \<and> B dvd k \<longrightarrow> fst p < k) \<and>
            (backend (fst p) (snd p) = Fetch_aborted \<longrightarrow>
               t = Cancelled \<and> (\<forall>q \<in> set (requests st). fst q \<le> fst p)))"
    by (intro exI conjI)
qed

text \<open>
  A signal aborted from the start, and a signal aborted after the first batch of one
  domain: the second batch is never posted.
\<close>

theorem cancellation_at_chunk_boundaries_witness:
  "(\<exists>st. run_checks 50 1 (\<lambda>i. True) (\<lambda>i batch. Replied []) (\<lambda>s. None) (Inr None)
            [''a.com'', ''b.io''] = Some (Cancelled, st) \<and>
      requests st = [] \<and> allAvailableDomains st = []) \<and>
   (\<exists>t st. run_checks 1 1 (\<lambda>i. 1 \<le> i) (\<lambda>i batch. Replied []) (\<lambda>s. None) (Inr None)
            [''a.com'', ''b.io''] = Some (t, st) \<and>
      (1, [''b.io'']) \<notin> set (requests st))"
proof -
  have pre: "[''a.com'', ''b.io''] \<noteq> [] \<and> (\<lambda>i::nat. True) 0" by simp
  from cancellation_at_chunk_boundaries [of "[''a.com'', ''b.io'']" "\<lambda>i. True" 50 1
      "\<lambda>i batch. Replied []" "\<lambda>s. None" "Inr None", THEN conjunct1, THEN mp, OF pre]
  have first: "\<exists>st. run_checks 50 1 (\<lambda>i. True) (\<lambda>i batch. Replied []) (\<lambda>s. None) (Inr None)
            [''a.com'', ''b.io''] = Some (Cancelled, st) \<and>
      requests st = [] \<and> allAvailableDomains st = []" .
  have B: "0 < (1::nat)" by simp
  from cancellation_at_chunk_boundaries [of "[''a.com'', ''b.io'']" "\<lambda>i. 1 \<le> i" 1 1
      "\<lambda>i batch. Replied []" "\<lambda>s. None" "Inr None", THEN conjunct2, THEN mp, OF B]
  obtain t st where run: "run_checks 1 1 (\<lambda>i. 1 \<le> i) (\<lambda>i batch. Replied []) (\<lambda>s. None) (Inr None)
            [''a.com'', ''b.io''] = Some (t, st)"
    and each: "\<forall>p \<in> set (requests st).
            \<not> (\<lambda>i::nat. 1 \<le> i) (fst p) \<and>
            (\<forall>k. (\<lambda>i::nat. 1 \<le> i) k \<and> 1 dvd k \<longrightarrow> fst p < k) \<and>
            ((\<lambda>i batch. Replied []) (fst p) (snd p) = Fetch_aborted \<longrightarrow>
               t = Cancelled \<and> (\<forall>q \<in> set (requests st). fst q \<le> fst p))"
    by (elim exE conjE) (rule that, assumption+)
  have "(1, [''b.io'']) \<notin> set (requests st)"
  proof
    assume "(1, [''b.io'']) \<in> set (requests st)"
    with each have "\<not> (1::nat) \<le> fst (1::nat, [''b.io''])" by blast
    then show False by simp
  qed
  with run have second: "\<exists>t st. run_checks 1 1 (\<lambda>i. 1 \<le> i) (\<lambda>i batch. Replied []) (\<lambda>s. None) (Inr None)
            [''a.com'', ''b.io''] = Some (t, st) \<and>
      (1, [''b.io'']) \<notin> set (requests st)"
    by (intro exI conjI)
  from first second show ?thesis by (rule conjI)
qed




text \<open>
  Claim C6 (normalizer idempotence), as amended. Normalising twice gives the same token
  as normalising once exactly when the token has no leading or trailing white space and
  does not start with \<^verbatim>\<open>www.\<close>; the token is always lower case and free of slashes,
  so these are the only two ways in which a second pass changes it.
\<close>

theorem normalizeDomain_idempotent_iff:
  "normalizeDomain (normalizeDomain x) = normalizeDomain x \<longleftrightarrow>
     trim (normalizeDomain x) = normalizeDomain x \<and> \<not> prefix ''www.'' (normalizeDomain x)"
proof
  assume idem: "normalizeDomain (normalizeDomain x) = normalizeDomain x"
  show "trim (normalizeDomain x) = normalizeDomain x \<and> \<not> prefix ''www.'' (normalizeDomain x)"
  proof (rule ccontr)
    assume "\<not> ?thesis"
    then consider "trim (normalizeDomain x) \<noteq> normalizeDomain x"
      | "trim (normalizeDomain x) = normalizeDomain x" and "prefix ''www.'' (normalizeDomain x)"
      by blast
    then have "length (normalizeDomain (normalizeDomain x)) < length (normalizeDomain x)"
    proof cases
      case 1
      then have "length (trim (normalizeDomain x)) < length (normalizeDomain x)"
        by (rule trim_shorter)
      with length_normalizeDomain_le [of "normalizeDomain x"] show ?thesis by simp
    next
      case 2
      with normalizeDomain_lower [of x] show ?thesis
        by (intro normalizeDomain_www_shorter)
    qed
    with idem show False by simp
  qed
next
  assume "trim (normalizeDomain x) = normalizeDomain x \<and> \<not> prefix ''www.'' (normalizeDomain x)"
  then show "normalizeDomain (normalizeDomain x) = normalizeDomain x"
    by (intro normalizeDomain_fixed normalizeDomain_no_slash normalizeDomain_lower) simp_all
qed

text \<open>The example of the specification is a fixed point after one pass.\<close>

theorem normalizeDomain_idempotent_iff_witness:
  "normalizeDomain ''https://www.Example.com/path?q=1'' = ''example.com'' \<and>
   normalizeDomain (normalizeDomain ''https://www.Example.com/path?q=1'') = ''example.com''"
proof -
  have n: "normalizeDomain ''https://www.Example.com/path?q=1'' = ''example.com''"
    by code_simp
  have "trim ''example.com'' = ''example.com'' \<and> \<not> prefix ''www.'' ''example.com''"
    by code_simp
  with normalizeDomain_idempotent_iff [of "''https://www.Example.com/path?q=1''"] n
  show ?thesis by simp
qed

text \<open>Only one \<^verbatim>\<open>www.\<close> is removed per pass.\<close>

theorem normalizeDomain_not_idempotent_counterexample:
  "normalizeDomain ''www.www.a.com'' = ''www.a.com'' \<and>
   normalizeDomain (normalizeDomain ''www.www.a.com'') = ''a.com''"
  by code_simp

text \<open>
  Claim C7 (normalizer totality, blank lines filtered), as amended. \<^verbatim>\<open>split\<close> never
  returns an empty array, so \<^verbatim>\<open>normalizeDomain\<close> yields a token for every string: the
  part before the first slash of the trimmed, lower-cased input without its scheme and
  \<^verbatim>\<open>www.\<close>; the empty string yields the empty token. The checker-mode caller drops
  the lines that are empty after trimming before it normalises: the checked domains are
  exactly the normal forms of the other lines, each listed once, and an empty list of
  them stops the run with an alert.
\<close>

theorem normalizeDomain_total_blank_lines_dropped:
  "split (CHR ''/'') s \<noteq> [] \<and>
   normalizeDomain s =
     takeWhile (\<lambda>c. c \<noteq> CHR ''/'') (strip_www (strip_scheme (toLowerCase (trim s)))) \<and>
   normalizeDomain [] = [] \<and>
   set (checker_domains input) =
     normalizeDomain ` {l \<in> set (map trim (split newline input)). l \<noteq> []} \<and>
   distinct (checker_domains input) \<and>
   checker_start input =
     (if checker_domains input = [] then Alerted ''Please paste a list of domains.''
      else Proceed (checker_domains input))"
proof (intro conjI)
  show "split (CHR ''/'') s \<noteq> []" by (rule split_not_Nil)
  show "normalizeDomain s =
     takeWhile (\<lambda>c. c \<noteq> CHR ''/'') (strip_www (strip_scheme (toLowerCase (trim s))))"
    by (simp add: normalizeDomain_def hd_split)
  show "normalizeDomain [] = []" by code_simp
  show "set (checker_domains input) =
     normalizeDomain ` {l \<in> set (map trim (split newline input)). l \<noteq> []}"
    by (auto simp: checker_domains_def Let_def set_spread_Set filter_Boolean_def)
  show "distinct (checker_domains input)"
    by (simp add: checker_domains_def Let_def distinct_spread_Set)
  show "checker_start input =
     (if checker_domains input = [] then Alerted ''Please paste a list of domains.''
      else Proceed (checker_domains input))"
    by (simp add: checker_start_def Let_def)
qed

text \<open>Three spellings of one domain and a blank line.\<close>

theorem normalizeDomain_total_blank_lines_dropped_witness:
  "checker_start (''a.com'' @ [newline] @ ''A.com '' @ [newline] @ [newline] @ '' a.com'')
     = Proceed [''a.com''] \<and>
   distinct (checker_domains (''a.com'' @ [newline] @ ''A.com '' @ [newline] @ [newline] @ '' a.com''))"
proof -
  have c: "checker_domains (''a.com'' @ [newline] @ ''A.com '' @ [newline] @ [newline] @ '' a.com'')
      = [''a.com'']" by code_simp
  from normalizeDomain_total_blank_lines_dropped
    [of "[]" "''a.com'' @ [newline] @ ''A.com '' @ [newline] @ [newline] @ '' a.com''"]
  show ?thesis unfolding c by simp
qed

text \<open>
  A line that is not blank can normalise to the empty token, which is then checked
  like any other domain.
\<close>

theorem empty_token_reaches_checked_set_counterexample:
  "normalizeDomain ''http://'' = [] \<and> checker_start ''http://'' = Proceed [[]]"
  by code_simp

text \<open>
  Claim C8 (generator parsing). \<^verbatim>\<open>generateDomainIdeas\<close> cuts the trimmed response at its
  line breaks and drops the empty pieces, but it does not deduplicate: for a response
  made of the line \<^verbatim>\<open>a.com\<close> twice it returns the candidate twice, and the generator
  mode of the click handler posts both copies to the backend in one batch and counts two
  domains checked. The checker mode of the same handler, given the same two lines, keeps
  one domain, since it passes its list through a Set.
\<close>

theorem generateDomainIdeas_keeps_duplicates:
  "generateDomainIdeas (Inr (Some (''a.com'' @ [newline] @ ''a.com''))) = [''a.com'', ''a.com''] \<and>
   analyze_click 1 Generator [] ''shop'' ''.com''
      (Inr (Some (''a.com'' @ [newline] @ ''a.com''))) (\<lambda>i. False)
      (\<lambda>i batch. Replied (map (\<lambda>d. \<lparr>domain = d, availability = Unavailable\<rparr>) batch))
      (\<lambda>s. None) (Inr None) =
     Some (Proceed (No_available,
       \<lparr>checkedCount = 2, allAvailableDomains = [], summaries = [(0, 2, 0), (2, 2, 0)],
        progress = [(2, 2)], requests = [(0, [''a.com'', ''a.com''])]\<rparr>)) \<and>
   checker_start (''a.com'' @ [newline] @ ''a.com'') = Proceed [''a.com'']"
proof (intro conjI)
  show ideas: "generateDomainIdeas (Inr (Some (''a.com'' @ [newline] @ ''a.com''))) =
      [''a.com'', ''a.com'']"
    by (simp add: generateDomainIdeas_def filter_Boolean_def trim_def is_ws_def)
  then have "start_domains Generator [] ''shop'' ''.com''
      (Inr (Some (''a.com'' @ [newline] @ ''a.com''))) = Proceed [''a.com'', ''a.com'']"
    by (simp add: start_domains_def Let_def)
  then show "analyze_click 1 Generator [] ''shop'' ''.com''
      (Inr (Some (''a.com'' @ [newline] @ ''a.com''))) (\<lambda>i. False)
      (\<lambda>i batch. Replied (map (\<lambda>d. \<lparr>domain = d, availability = Unavailable\<rparr>) batch))
      (\<lambda>s. None) (Inr None) =
     Some (Proceed (No_available,
       \<lparr>checkedCount = 2, allAvailableDomains = [], summaries = [(0, 2, 0), (2, 2, 0)],
        progress = [(2, 2)], requests = [(0, [''a.com'', ''a.com''])]\<rparr>))"
    by (simp add: analyze_click_def run_checks_def batch_loop.simps slice_def
        checkDomainsWithBackend_def after_batch_def finish_def Let_def)
  show "checker_start (''a.com'' @ [newline] @ ''a.com'') = Proceed [''a.com'']"
    by (simp add: checker_start_def checker_domains_def filter_Boolean_def trim_def is_ws_def
        normalizeDomain_def strip_scheme_def strip_www_def toLowerCase_def lower_char_def
        spread_Set_def Set_add_def Let_def)
qed

text \<open>
  Claim C9 (XML registrar backend), as amended. Take a POST with a non-empty list of
  domains and both credentials configured. If the registrar request yields a response
  text, the handler answers 200 with exactly one result per input domain, in input
  order, and a domain is \<^verbatim>\<open>Available\<close> if and only if the text contains the marker
  \<^verbatim>\<open><DomainCheckResult Domain="{domain}" Available="true"\<close>, \<^verbatim>\<open>Unavailable\<close> otherwise.
  If the registrar request is rejected, the handler answers 500 with an error body. It
  raises in neither case.
\<close>

theorem namecheap_backend_contract:
  "http_method req = ''POST'' \<and> body req = Inr b \<and> domains b = Some ds \<and> ds \<noteq> [] \<and>
   API_USER = Some u \<and> u \<noteq> [] \<and> API_KEY = Some k \<and> k \<noteq> [] \<longrightarrow>
   (\<forall>xmlText. \<exists>results.
      namecheap_handler API_USER API_KEY (Inr xmlText) req =
        Inr \<lparr>status = 200, payload = Results_body results\<rparr> \<and>
      length results = length ds \<and> map domain results = ds \<and>
      (\<forall>i < length ds.
         availability (results ! i) =
           (if \<exists>pre post. xmlText = pre @ DomainCheckResult_marker (ds ! i) @ post
            then Available else Unavailable))) \<and>
   (\<forall>error.
      namecheap_handler API_USER API_KEY (Inl error) req =
        Inr \<lparr>status = 500, payload = Error_body ''Failed to check domains.''\<rparr>)"
proof (intro impI conjI allI)
  assume a: "http_method req = ''POST'' \<and> body req = Inr b \<and> domains b = Some ds \<and> ds \<noteq> [] \<and>
   API_USER = Some u \<and> u \<noteq> [] \<and> API_KEY = Some k \<and> k \<noteq> []"
  fix xmlText
  let ?results = "namecheap_results xmlText ds"
  have h: "namecheap_handler API_USER API_KEY (Inr xmlText) req =
        Inr \<lparr>status = 200, payload = Results_body ?results\<rparr>"
    using a by (simp add: namecheap_handler_def)
  have l: "length ?results = length ds" by (simp add: namecheap_results_def)
  have m: "map domain ?results = ds" by (simp add: namecheap_results_def Let_def comp_def)
  have c: "\<forall>i < length ds.
         availability (?results ! i) =
           (if \<exists>pre post. xmlText = pre @ DomainCheckResult_marker (ds ! i) @ post
            then Available else Unavailable)"
    by (simp add: namecheap_results_def Let_def str_includes_iff)
  from h l m c show "\<exists>results.
      namecheap_handler API_USER API_KEY (Inr xmlText) req =
        Inr \<lparr>status = 200, payload = Results_body results\<rparr> \<and>
      length results = length ds \<and> map domain results = ds \<and>
      (\<forall>i < length ds.
         availability (results ! i) =
           (if \<exists>pre post. xmlText = pre @ DomainCheckResult_marker (ds ! i) @ post
            then Available else Unavailable))"
    by blast
next
  assume a: "http_method req = ''POST'' \<and> body req = Inr b \<and> domains b = Some ds \<and> ds \<noteq> [] \<and>
   API_USER = Some u \<and> u \<noteq> [] \<and> API_KEY = Some k \<and> k \<noteq> []"
  fix error
  show "namecheap_handler API_USER API_KEY (Inl error) req =
        Inr \<lparr>status = 500, payload = Error_body ''Failed to check domains.''\<rparr>"
    using a by (simp add: namecheap_handler_def)
qed

text \<open>A response that lists the first of two domains, and a rejected request.\<close>

theorem namecheap_backend_contract_witness:
  "(\<exists>results.
      namecheap_handler (Some ''user'') (Some ''key'')
        (Inr ''<DomainCheckResult Domain=\"a.com\" Available=\"true\" />'')
        \<lparr>http_method = ''POST'',
         body = Inr \<lparr>mode = None, domains = Some [''a.com'', ''b.io''],
                     keywords_text = [], tlds_text = []\<rparr>\<rparr> =
        Inr \<lparr>status = 200, payload = Results_body results\<rparr> \<and>
      map domain results = [''a.com'', ''b.io'']) \<and>
   namecheap_handler (Some ''user'') (Some ''key'') (Inl (Exn ''TypeError'' ''fetch failed''))
        \<lparr>http_method = ''POST'',
         body = Inr \<lparr>mode = None, domains = Some [''a.com'', ''b.io''],
                     keywords_text = [], tlds_text = []\<rparr>\<rparr> =
     Inr \<lparr>status = 500, payload = Error_body ''Failed to check domains.''\<rparr>"
proof -
  have pre: "http_method \<lparr>http_method = ''POST'',
         body = Inr \<lparr>mode = None, domains = Some [''a.com'', ''b.io''],
                     keywords_text = [], tlds_text = []\<rparr>\<rparr> = ''POST'' \<and>
      body \<lparr>http_method = ''POST'',
         body = Inr \<lparr>mode = None, domains = Some [''a.com'', ''b.io''],
                     keywords_text = [], tlds_text = []\<rparr>\<rparr>
        = Inr \<lparr>mode = None, domains = Some [''a.com'', ''b.io''],
                     keywords_text = [], tlds_text = []\<rparr> \<and>
      domains \<lparr>mode = None, domains = Some [''a.com'', ''b.io''],
                     keywords_text = [], tlds_text = []\<rparr> = Some [''a.com'', ''b.io''] \<and>
      [''a.com'', ''b.io''] \<noteq> [] \<and>
      Some ''user'' = Some ''user'' \<and> ''user'' \<noteq> [] \<and> Some ''key'' = Some ''key'' \<and> ''key'' \<noteq> []"
    by simp
  note contract = namecheap_backend_contract [THEN mp, OF pre]
  from contract [THEN conjunct1, THEN spec,
      of "''<DomainCheckResult Domain=\"a.com\" Available=\"true\" />''"]
  obtain results where r: "namecheap_handler (Some ''user'') (Some ''key'')
        (Inr ''<DomainCheckResult Domain=\"a.com\" Available=\"true\" />'')
        \<lparr>http_method = ''POST'',
         body = Inr \<lparr>mode = None, domains = Some [''a.com'', ''b.io''],
                     keywords_text = [], tlds_text = []\<rparr>\<rparr> =
        Inr \<lparr>status = 200, payload = Results_body results\<rparr> \<and>
      length results = length [''a.com'', ''b.io''] \<and>
      map domain results = [''a.com'', ''b.io''] \<and>
      (\<forall>i < length [''a.com'', ''b.io''].
         availability (results ! i) =
           (if \<exists>pre post. ''<DomainCheckResult Domain=\"a.com\" Available=\"true\" />'' =
                 pre @ DomainCheckResult_marker ([''a.com'', ''b.io''] ! i) @ post
            then Available else Unavailable))" ..
  show ?thesis
  proof (rule conjI)
    from r show "\<exists>results.
      namecheap_handler (Some ''user'') (Some ''key'')
        (Inr ''<DomainCheckResult Domain=\"a.com\" Available=\"true\" />'')
        \<lparr>http_method = ''POST'',
         body = Inr \<lparr>mode = None, domains = Some [''a.com'', ''b.io''],
                     keywords_text = [], tlds_text = []\<rparr>\<rparr> =
        Inr \<lparr>status = 200, payload = Results_body results\<rparr> \<and>
      map domain results = [''a.com'', ''b.io'']"
      by (intro exI [of _ results]) (simp only:)
  next
    from contract [THEN conjunct2, THEN spec, of "Exn ''TypeError'' ''fetch failed''"]
    show "namecheap_handler (Some ''user'') (Some ''key'') (Inl (Exn ''TypeError'' ''fetch failed''))
        \<lparr>http_method = ''POST'',
         body = Inr \<lparr>mode = None, domains = Some [''a.com'', ''b.io''],
                     keywords_text = [], tlds_text = []\<rparr>\<rparr> =
     Inr \<lparr>status = 500, payload = Error_body ''Failed to check domains.''\<rparr>" .
  qed
qed

text \<open>A rejected registrar request gives no result for the input domain.\<close>

theorem namecheap_registrar_failure_counterexample:
  "namecheap_handler (Some ''user'') (Some ''key'') (Inl (Exn ''TypeError'' ''fetch failed''))
        \<lparr>http_method = ''POST'',
         body = Inr \<lparr>mode = None, domains = Some [''a.com''],
                     keywords_text = [], tlds_text = []\<rparr>\<rparr> =
     Inr \<lparr>status = 500, payload = Error_body ''Failed to check domains.''\<rparr>"
  by (simp add: namecheap_handler_def)

text \<open>
  Claim C10 (check endpoint order and length preservation). A POST whose body carries a
  non-empty \<^verbatim>\<open>domains\<close> array is answered with status 200 and a list with exactly one
  entry per input domain, in input order, each entry naming its input domain, whatever
  the order in which the probes settle. The same holds for the orchestrator's
  \<^verbatim>\<open>check\<close> mode once the API key is configured. Conversely, every 200 response of
  the check endpoint answers such a request and has that body.
\<close>

theorem check_endpoint_order_and_length:
  "(http_method req = ''POST'' \<and> body req = Inr b \<and> domains b = Some ds \<and> ds \<noteq> [] \<longrightarrow>
   (\<exists>results.
      handler_check_domain resolver order req = \<lparr>status = 200, payload = Results_body results\<rparr> \<and>
      length results = length ds \<and> map domain results = ds) \<and>
   (mode b = Some ''check'' \<and> apiKey = Some k \<and> k \<noteq> [] \<longrightarrow>
    (\<exists>results.
      orchestrator_handler apiKey ai resolver order req =
        \<lparr>status = 200, payload = Results_body results\<rparr> \<and>
      length results = length ds \<and> map domain results = ds))) \<and>
   (status (handler_check_domain resolver order req) = 200 \<longrightarrow>
    (\<exists>b ds results. body req = Inr b \<and> domains b = Some ds \<and> ds \<noteq> [] \<and>
       handler_check_domain resolver order req =
         \<lparr>status = 200, payload = Results_body results\<rparr> \<and>
       length results = length ds \<and> map domain results = ds))"
proof (rule conjI)
  show "http_method req = ''POST'' \<and> body req = Inr b \<and> domains b = Some ds \<and> ds \<noteq> [] \<longrightarrow>
   (\<exists>results.
      handler_check_domain resolver order req = \<lparr>status = 200, payload = Results_body results\<rparr> \<and>
      length results = length ds \<and> map domain results = ds) \<and>
   (mode b = Some ''check'' \<and> apiKey = Some k \<and> k \<noteq> [] \<longrightarrow>
    (\<exists>results.
      orchestrator_handler apiKey ai resolver order req =
        \<lparr>status = 200, payload = Results_body results\<rparr> \<and>
      length results = length ds \<and> map domain results = ds))"
    by (rule valid_post_checked)
  show "status (handler_check_domain resolver order req) = 200 \<longrightarrow>
    (\<exists>b ds results. body req = Inr b \<and> domains b = Some ds \<and> ds \<noteq> [] \<and>
       handler_check_domain resolver order req =
         \<lparr>status = 200, payload = Results_body results\<rparr> \<and>
       length results = length ds \<and> map domain results = ds)"
    by (intro impI) (rule handler_check_domain_200)
qed

text \<open>Two domains whose probes settle in the reverse order.\<close>

theorem check_endpoint_order_and_length_witness:
  "(\<exists>results.
      handler_check_domain (\<lambda>d. if d = ''foo.com'' then Responds (Json_value (JObj [(''Status'', JNum 3)]))
                                else Network_failure) [1, 0]
        \<lparr>http_method = ''POST'',
         body = Inr \<lparr>mode = Some ''check'', domains = Some [''foo.com'', ''bar.io''],
                     keywords_text = [], tlds_text = []\<rparr>\<rparr>
        = \<lparr>status = 200, payload = Results_body results\<rparr> \<and>
      length results = 2 \<and> map domain results = [''foo.com'', ''bar.io'']) \<and>
   (\<exists>results.
      orchestrator_handler (Some ''key'') (Inr None)
        (\<lambda>d. if d = ''foo.com'' then Responds (Json_value (JObj [(''Status'', JNum 3)]))
             else Network_failure) [1, 0]
        \<lparr>http_method = ''POST'',
         body = Inr \<lparr>mode = Some ''check'', domains = Some [''foo.com'', ''bar.io''],
                     keywords_text = [], tlds_text = []\<rparr>\<rparr>
        = \<lparr>status = 200, payload = Results_body results\<rparr> \<and>
      length results = 2 \<and> map domain results = [''foo.com'', ''bar.io''])"
  using check_endpoint_order_and_length
    [of "\<lparr>http_method = ''POST'',
         body = Inr \<lparr>mode = Some ''check'', domains = Some [''foo.com'', ''bar.io''],
                     keywords_text = [], tlds_text = []\<rparr>\<rparr>"
        "\<lparr>mode = Some ''check'', domains = Some [''foo.com'', ''bar.io''],
                     keywords_text = [], tlds_text = []\<rparr>"
        "[''foo.com'', ''bar.io'']"
        "\<lambda>d. if d = ''foo.com'' then Responds (Json_value (JObj [(''Status'', JNum 3)]))
             else Network_failure" "[1, 0]" "Some ''key''" "''key''" "Inr None"]
  by (simp add: numeral_2_eq_2)

end
